theory Spec2Isabelle
  imports Main "HOL-Library.Word" "HOL-Library.Multiset"
begin

unbundle bit_operations_syntax

section \<open>JavaScript values used by the router\<close>

text \<open>
  Strings are lists of characters, a \<open>Uint8Array\<close> is a list of bytes, and an object
  read with \<open>for ... in\<close> is an association list in insertion order. Exceptions that a
  function throws are the \<open>Inl\<close> branch of its result.
\<close>

type_synonym byte = "8 word"

datatype exn =
    InvalidHexString
  | BuffersLength
  | ReferenceError

section \<open>Router.js: helpers\<close>

text \<open>
  \<open>xorBuffers(a, b)\<close>: throws when the lengths differ, otherwise the byte-wise XOR in a
  fresh array.
\<close>

definition xorBuffers :: "byte list \<Rightarrow> byte list \<Rightarrow> exn + byte list" where
  "xorBuffers a b =
     (if length a \<noteq> length b then Inl BuffersLength
      else Inr (map (\<lambda>(x, y). x XOR y) (zip a b)))"

text \<open>\<open>new Uint8Array(n)\<close>: n zero bytes.\<close>

definition newUint8Array :: "nat \<Rightarrow> byte list" where
  "newUint8Array n = replicate n 0"

text \<open>
  The accumulation \<open>xorResult = xorBuffers(xorResult, h)\<close> over a list of hash buffers,
  as in \<open>computeKeyForRouterFile\<close> and in the fold of \<open>routerForwardCall\<close>; the first
  throw ends it.
\<close>

fun xorFold :: "byte list \<Rightarrow> byte list list \<Rightarrow> exn + byte list" where
  "xorFold acc [] = Inr acc"
| "xorFold acc (h # hs) =
     (case xorBuffers acc h of Inl e \<Rightarrow> Inl e | Inr acc' \<Rightarrow> xorFold acc' hs)"


section \<open>JavaScript strings and objects\<close>

text \<open>
  \<open>s.split(sep)\<close> for a separator that is one character or a one-character class: the
  result always has at least one element, and \<open>.pop()\<close> on it is its last element.
\<close>

fun splitBy :: "(char \<Rightarrow> bool) \<Rightarrow> string \<Rightarrow> string list" where
  "splitBy p [] = [[]]"
| "splitBy p (c # cs) =
     (if p c then [] # splitBy p cs
      else (case splitBy p cs of [] \<Rightarrow> [[c]] | w # ws \<Rightarrow> (c # w) # ws))"

definition endsWith :: "string \<Rightarrow> string \<Rightarrow> bool" where
  "endsWith s t \<longleftrightarrow> length t \<le> length s \<and> drop (length s - length t) s = t"

definition toLowerCase :: "string \<Rightarrow> string" where
  "toLowerCase s =
     map (\<lambda>c. if 65 \<le> (of_char c :: nat) \<and> (of_char c :: nat) \<le> 90
              then char_of (of_char c + 32 :: nat) else c) s"

text \<open>
  \<open>obj[k] = v\<close> on an object kept as an association list: an existing key keeps its
  place and takes the new value, a new key goes to the end. \<open>obj[k]\<close> is \<open>map_of\<close>.
\<close>

fun obj_set :: "(string \<times> 'v) list \<Rightarrow> string \<Rightarrow> 'v \<Rightarrow> (string \<times> 'v) list" where
  "obj_set [] k v = [(k, v)]"
| "obj_set ((k', v') # kvs) k v =
     (if k' = k then (k, v) # kvs else (k', v') # obj_set kvs k v)"

datatype jsval =
    JString string
  | JNumber int
  | JNumberOther string
  | JBool bool
  | JNull
  | JArray "jsval list"
  | JObject "(string \<times> jsval) list"

text \<open>
  \<open>Number(value)\<close> on a string of at most 15 decimal digits is that integer, exactly.
  Every other string is kept as \<open>JNumberOther\<close>: the number the browser makes of it is
  not computed here.
\<close>

definition isDigit :: "char \<Rightarrow> bool" where
  "isDigit c \<longleftrightarrow> 48 \<le> (of_char c :: nat) \<and> (of_char c :: nat) \<le> 57"

definition decimalValue :: "string \<Rightarrow> int" where
  "decimalValue s = foldl (\<lambda>n c. 10 * n + (int (of_char c) - 48)) 0 s"

definition Number_js :: "string \<Rightarrow> jsval" where
  "Number_js s =
     (if s \<noteq> [] \<and> length s \<le> 15 \<and> list_all isDigit s then JNumber (decimalValue s)
      else JNumberOther s)"

section \<open>Hex strings\<close>

definition hexDigitVal :: "char \<Rightarrow> nat option" where
  "hexDigitVal c =
     (let n = (of_char c :: nat) in
      if 48 \<le> n \<and> n \<le> 57 then Some (n - 48)
      else if 97 \<le> n \<and> n \<le> 102 then Some (n - 87)
      else if 65 \<le> n \<and> n \<le> 70 then Some (n - 55)
      else None)"

definition isWhiteSpace :: "char \<Rightarrow> bool" where
  "isWhiteSpace c \<longleftrightarrow> (of_char c :: nat) \<in> {9, 10, 11, 12, 13, 32, 160}"

text \<open>
  \<open>parseInt(hexString.substr(i, 2), 16)\<close> on the two characters a, b, with \<open>None\<close> for
  NaN: leading white space is skipped, a sign is read, and the longest prefix of hex
  digits is the value. (\<open>"0x"\<close> is NaN in the browser and 0 here; the array stores 0 for
  both.)
\<close>

definition parseInt16 :: "char \<Rightarrow> char \<Rightarrow> int option" where
  "parseInt16 a b =
     (if isWhiteSpace a then map_option int (hexDigitVal b)
      else if a = CHR ''-'' then map_option (\<lambda>v. - int v) (hexDigitVal b)
      else if a = CHR ''+'' then map_option int (hexDigitVal b)
      else (case hexDigitVal a of
              None \<Rightarrow> None
            | Some x \<Rightarrow> (case hexDigitVal b of
                           None \<Rightarrow> Some (int x)
                         | Some y \<Rightarrow> Some (int (16 * x + y)))))"

text \<open>Storing into a \<open>Uint8Array\<close>: NaN is 0, an integer is taken modulo 256.\<close>

definition toUint8 :: "int option \<Rightarrow> byte" where
  "toUint8 v = (case v of None \<Rightarrow> 0 | Some n \<Rightarrow> word_of_int n)"

fun hexPairs :: "string \<Rightarrow> byte list" where
  "hexPairs (a # b # cs) = toUint8 (parseInt16 a b) # hexPairs cs"
| "hexPairs _ = []"

definition hexStringToUint8Array :: "string \<Rightarrow> exn + byte list" where
  "hexStringToUint8Array hexString =
     (if length hexString mod 2 \<noteq> 0 then Inl InvalidHexString
      else Inr (hexPairs hexString))"

text \<open>
  \<open>uint8ArrayToHexString\<close>: each byte is \<open>('00' + b.toString(16)).slice(-2)\<close>, and the
  pieces are joined.
\<close>

definition hexDigit :: "nat \<Rightarrow> char" where
  "hexDigit n = (if n < 10 then char_of (48 + n) else char_of (87 + n))"

definition toString16 :: "byte \<Rightarrow> string" where
  "toString16 b =
     (if unat b < 16 then [hexDigit (unat b)]
      else [hexDigit (unat b div 16), hexDigit (unat b mod 16)])"

definition slice_last2 :: "string \<Rightarrow> string" where
  "slice_last2 s = drop (length s - 2) s"

definition uint8ArrayToHexString :: "byte list \<Rightarrow> string" where
  "uint8ArrayToHexString arr = concat (map (\<lambda>b. slice_last2 (''00'' @ toString16 b)) arr)"

section \<open>The dependency tree\<close>

text \<open>
  A \<open>DependencyNode\<close> is \<open>{ routerDependant, dependencies }\<close>; \<open>dependencies\<close> maps a
  full file path to the node of that file, in insertion order.
\<close>

datatype node = Node (routerDependant: bool) (dependencies: "(string \<times> node) list")

section \<open>Router.js: what the page logs and does\<close>

text \<open>
  One constructor for each console message and each action. \<open>Invoke f args\<close> is the call
  \<open>window[f](...args)\<close>; what the called function does, and an exception of its own
  that the promise chain would catch and log, are not part of the model. \<open>ReadLiveHash\<close>
  is the read of \<open>window.globalHashes[file]\<close> in \<open>verifyHashes\<close>. The two
  \<open>console.log\<close> lines that print the key are left out.
\<close>

datatype event =
    ErrNoIVMapping string
  | ErrNoMask string
  | ErrNoBranch string
  | ErrNoHashes "string list"
  | ErrNoIV string
  | ErrDecryptionFailed
  | ErrInvalidFormat string
  | ErrTypesValuesMismatch
  | ErrObjectParse
  | WarnUnknownType
  | LogCaller string
  | ErrNoFunction "string option"
  | Invoke string "jsval list"
  | ReadLiveHash string
  | WarnMismatch string
  | ShowTamperOverlay
  | LogAllMatch
  | ErrTimeout

text \<open>
  What a page gives the router: the three embedded constants after decoding, the live
  hash table \<open>window.globalHashes\<close>, and the browser's own functions. \<open>aesCbcDecrypt key
  iv ct\<close> stands for \<open>base64ToArrayBuffer\<close> on the IV and the call string,
  \<open>crypto.subtle.decrypt\<close> and \<open>TextDecoder.decode\<close>; it is \<open>None\<close> when any of them
  throws or rejects. \<open>windowFunction name\<close> is \<open>typeof window[name] === 'function'\<close>,
  and \<open>JSON_parse\<close> is \<open>None\<close> when \<open>JSON.parse\<close> throws.
\<close>

record page =
  DEPENDENCY_TREE :: "(string \<times> node) list"
  IVS_MAPPING :: "(string \<times> (string \<times> string) list) list"
  globalHashes :: "(string \<times> string) list"
  aesCbcDecrypt :: "byte list \<Rightarrow> string \<Rightarrow> string \<Rightarrow> string option"
  windowFunction :: "string \<Rightarrow> bool"
  JSON_parse :: "string \<Rightarrow> jsval option"

section \<open>Router.js: parseAndCall\<close>

definition convertParam :: "page \<Rightarrow> string \<Rightarrow> string \<Rightarrow> event list \<times> jsval" where
  "convertParam pg type value =
     (if type = ''string'' then ([], JString value)
      else if type = ''number'' then ([], Number_js value)
      else if type = ''boolean'' then ([], JBool (toLowerCase value = ''true''))
      else if type = ''object'' then
        (case JSON_parse pg value of
           Some v \<Rightarrow> ([], v)
         | None \<Rightarrow> ([ErrObjectParse], JNull))
      else if type = ''null'' then ([], JNull)
      else ([WarnUnknownType], JString value))"

text \<open>
  The two identical tails of \<open>parseAndCall\<close>: call \<open>window[functionName]\<close> when it is a
  function, log otherwise. \<open>parts[1]\<close> is \<open>undefined\<close> when the split has one field, and
  \<open>window[undefined]\<close> is not a function.
\<close>

definition dispatch :: "page \<Rightarrow> string list \<Rightarrow> jsval list \<Rightarrow> event list" where
  "dispatch pg parts params =
     (if 1 < length parts then
        (if windowFunction pg (parts ! 1) then [Invoke (parts ! 1) params]
         else [ErrNoFunction (Some (parts ! 1))])
      else [ErrNoFunction None])"

definition parseAndCall :: "page \<Rightarrow> string \<Rightarrow> string \<Rightarrow> jsval list \<Rightarrow> event list" where
  "parseAndCall pg callString caller args =
     (let parts = splitBy (\<lambda>c. c = CHR ''-'') callString in
      if args = [] then
        (if length parts \<noteq> 4 then [ErrInvalidFormat callString]
         else
           let paramTypesStr = parts ! 2; paramValuesStr = parts ! 3 in
           if paramTypesStr \<noteq> ''null'' \<and> paramValuesStr \<noteq> ''null'' then
             (let types = splitBy (\<lambda>c. c = CHR '','') paramTypesStr;
                  values = splitBy (\<lambda>c. c = CHR '','') paramValuesStr in
              if length types \<noteq> length values then [ErrTypesValuesMismatch]
              else
                let converted = map (\<lambda>(t, v). convertParam pg t v) (zip types values) in
                concat (map fst converted) @ [LogCaller caller]
                  @ dispatch pg parts (map snd converted))
           else [LogCaller caller] @ dispatch pg parts [])
      else dispatch pg parts args)"

section \<open>Router.js: routerForwardCall\<close>

definition isSeparator :: "char \<Rightarrow> bool" where
  "isSeparator c \<longleftrightarrow> c = CHR 0x5C \<or> c = CHR ''/''"

text \<open>\<open>file.split(/[\\/]/).pop()\<close>\<close>

definition fileNameOf :: "string \<Rightarrow> string" where
  "fileNameOf file = last (splitBy isSeparator file)"

text \<open>
  \<open>collectDeps(node)\<close>, with \<open>branchFiles\<close> and \<open>visited\<close> of the enclosing function as
  the state: a dependency that is not router-dependent and not yet visited is pushed and
  marked; every dependency is descended into.
\<close>

fun collectDeps :: "(string \<times> node) list \<Rightarrow> string list \<times> string set \<Rightarrow> string list \<times> string set" where
  "collectDeps [] st = st"
| "collectDeps ((dep, Node rd ds) # rest) (branchFiles, visited) =
     (let st1 = (if \<not> rd \<and> dep \<notin> visited then (branchFiles @ [dep], insert dep visited)
                 else (branchFiles, visited))
      in collectDeps rest (collectDeps ds st1))"

text \<open>
  The loop over \<open>DEPENDENCY_TREE\<close>: the first root whose path ends with the file key is
  the branch, and the loop breaks there. For a root that is not router-dependent the root
  is pushed and then \<open>visited.add(dep)\<close> is evaluated, where no \<open>dep\<close> is in scope: the
  statement throws a ReferenceError.
\<close>

definition collectBranch :: "(string \<times> node) list \<Rightarrow> string \<Rightarrow> exn + string list" where
  "collectBranch tree fileKey =
     (case find (\<lambda>(f, n). endsWith f fileKey) tree of
        None \<Rightarrow> Inr []
      | Some (f, n) \<Rightarrow>
          if \<not> routerDependant n then Inl ReferenceError
          else Inr (fst (collectDeps (dependencies n) ([], {}))))"

text \<open>
  The \<open>forEach\<close> over the branch files: the live hash of the bare file name, when there
  is one and it is not the empty string, is XORed into the accumulator.
\<close>

fun liveFold :: "(string \<times> string) list \<Rightarrow> byte list \<Rightarrow> string list \<Rightarrow> exn + byte list" where
  "liveFold live acc [] = Inr acc"
| "liveFold live acc (file # files) =
     (case map_of live (fileNameOf file) of
        None \<Rightarrow> liveFold live acc files
      | Some hashHex \<Rightarrow>
          if hashHex = [] then liveFold live acc files
          else (case hexStringToUint8Array hashHex of
                  Inl e \<Rightarrow> Inl e
                | Inr h \<Rightarrow> (case xorBuffers acc h of
                             Inl e \<Rightarrow> Inl e
                           | Inr acc' \<Rightarrow> liveFold live acc' files)))"

text \<open>A \<open>Uint8Array\<close> is an object, and every object is truthy.\<close>

definition truthyArray :: "byte list \<Rightarrow> bool" where
  "truthyArray a = True"

text \<open>
  The synchronous part of \<open>routerForwardCall\<close>, up to the final key: it throws, or it
  logs and returns, or it has the key.
\<close>

datatype keyResult = Returned "event list" | FinalKey "byte list"

definition fileKeyOf :: "string \<Rightarrow> string" where
  "fileKeyOf callee = (if endsWith callee ''.js'' then callee else callee @ ''.js'')"

definition reconstructKey :: "page \<Rightarrow> string \<Rightarrow> exn + keyResult" where
  "reconstructKey pg callee =
     (let fileKey = fileKeyOf callee in
      case map_of (IVS_MAPPING pg) fileKey of
        None \<Rightarrow> Inr (Returned [ErrNoIVMapping fileKey])
      | Some mappingForFile \<Rightarrow>
          (case map_of mappingForFile ''mask'' of
             None \<Rightarrow> Inr (Returned [ErrNoMask fileKey])
           | Some maskHex \<Rightarrow>
               if maskHex = [] then Inr (Returned [ErrNoMask fileKey])
               else
                 (case collectBranch (DEPENDENCY_TREE pg) fileKey of
                    Inl e \<Rightarrow> Inl e
                  | Inr branchFiles \<Rightarrow>
                      if branchFiles = [] then Inr (Returned [ErrNoBranch fileKey])
                      else
                        (case liveFold (globalHashes pg) (newUint8Array 32) branchFiles of
                           Inl e \<Rightarrow> Inl e
                         | Inr xorResult \<Rightarrow>
                             if \<not> truthyArray xorResult
                             then Inr (Returned [ErrNoHashes branchFiles])
                             else
                               (case hexStringToUint8Array maskHex of
                                  Inl e \<Rightarrow> Inl e
                                | Inr maskBuffer \<Rightarrow>
                                    (case xorBuffers xorResult maskBuffer of
                                       Inl e \<Rightarrow> Inl e
                                     | Inr finalKeyRaw \<Rightarrow> Inr (FinalKey finalKeyRaw)))))))"

text \<open>
  The earlier \<open>routerForwardCall\<close> (the variant kept beside Router.js) has no
  \<open>visited\<close> Set: the root and every dependency that is not router-dependent are pushed,
  once for each occurrence, and nothing throws in the loop. Its fold, its guard and its
  mask step are the same text.
\<close>

fun collectDeps_early :: "(string \<times> node) list \<Rightarrow> string list \<Rightarrow> string list" where
  "collectDeps_early [] branchFiles = branchFiles"
| "collectDeps_early ((dep, Node rd ds) # rest) branchFiles =
     collectDeps_early rest
       (collectDeps_early ds (if \<not> rd then branchFiles @ [dep] else branchFiles))"

definition collectBranch_early :: "(string \<times> node) list \<Rightarrow> string \<Rightarrow> string list" where
  "collectBranch_early tree fileKey =
     (case find (\<lambda>(f, n). endsWith f fileKey) tree of
        None \<Rightarrow> []
      | Some (f, n) \<Rightarrow>
          collectDeps_early (dependencies n) (if \<not> routerDependant n then [f] else []))"

definition reconstructKey_early :: "page \<Rightarrow> string \<Rightarrow> exn + keyResult" where
  "reconstructKey_early pg callee =
     (let fileKey = fileKeyOf callee in
      case map_of (IVS_MAPPING pg) fileKey of
        None \<Rightarrow> Inr (Returned [ErrNoIVMapping fileKey])
      | Some mappingForFile \<Rightarrow>
          (case map_of mappingForFile ''mask'' of
             None \<Rightarrow> Inr (Returned [ErrNoMask fileKey])
           | Some maskHex \<Rightarrow>
               if maskHex = [] then Inr (Returned [ErrNoMask fileKey])
               else
                 (let branchFiles = collectBranch_early (DEPENDENCY_TREE pg) fileKey in
                  if branchFiles = [] then Inr (Returned [ErrNoBranch fileKey])
                  else
                    (case liveFold (globalHashes pg) (newUint8Array 32) branchFiles of
                       Inl e \<Rightarrow> Inl e
                     | Inr xorResult \<Rightarrow>
                         if \<not> truthyArray xorResult
                         then Inr (Returned [ErrNoHashes branchFiles])
                         else
                           (case hexStringToUint8Array maskHex of
                              Inl e \<Rightarrow> Inl e
                            | Inr maskBuffer \<Rightarrow>
                                (case xorBuffers xorResult maskBuffer of
                                   Inl e \<Rightarrow> Inl e
                                 | Inr finalKeyRaw \<Rightarrow> Inr (FinalKey finalKeyRaw)))))))"

text \<open>
  The promise chain. The IV is the mapping's entry for the call string, the key
  \<open>"mask"\<close> being skipped. Without an IV the first handler logs and returns
  \<open>undefined\<close>; the second handler then decodes \<open>undefined\<close> to the empty string and
  goes on with it. With trailing arguments, \<open>parseAndCall\<close> is given the array \<open>args\<close>
  itself as its one rest argument.
\<close>

definition promiseChain ::
  "page \<Rightarrow> (string \<times> string) list \<Rightarrow> byte list \<Rightarrow> string \<Rightarrow> string \<Rightarrow> jsval list \<Rightarrow> event list" where
  "promiseChain pg mappingForFile key callString callee args =
     (let ivBase64 = (if callString = ''mask'' then None else map_of mappingForFile callString);
          second = (\<lambda>plaintext.
             if args = [] then parseAndCall pg plaintext callee []
             else parseAndCall pg plaintext callee [JArray args])
      in case ivBase64 of
           None \<Rightarrow> ErrNoIV callString # second []
         | Some iv \<Rightarrow>
             if iv = [] then ErrNoIV callString # second []
             else (case aesCbcDecrypt pg key iv callString of
                     None \<Rightarrow> [ErrDecryptionFailed]
                   | Some plaintext \<Rightarrow> second plaintext))"

definition routerForwardCall :: "page \<Rightarrow> string \<Rightarrow> string \<Rightarrow> jsval list \<Rightarrow> exn + event list" where
  "routerForwardCall pg callString callee args =
     (case reconstructKey pg callee of
        Inl e \<Rightarrow> Inl e
      | Inr (Returned evs) \<Rightarrow> Inr evs
      | Inr (FinalKey key) \<Rightarrow>
          Inr (promiseChain pg (the (map_of (IVS_MAPPING pg) (fileKeyOf callee)))
                 key callString callee args))"

text \<open>Two pages used as concrete inputs below.\<close>

definition dynamicPage :: page where
  "dynamicPage =
     \<lparr>DEPENDENCY_TREE =
        [(''/srv/site/file2.js'',
          Node True [(''/srv/site/testdep2/unfilejsqualunque.js'', Node False [])])],
      IVS_MAPPING =
        [(''file2.js'', [(''mask'', replicate 64 CHR ''0''), (''Q0lQSEVS'', ''SVZJVklWSVY='')])],
      globalHashes = [],
      aesCbcDecrypt =
        (\<lambda>key iv ct. if ct = ''Q0lQSEVS'' then Some ''unfilejsqualunque-printing'' else None),
      windowFunction = (\<lambda>name. name = ''printing''),
      JSON_parse = (\<lambda>s. None)\<rparr>"

definition suffixClashPage :: page where
  "suffixClashPage =
     \<lparr>DEPENDENCY_TREE =
        [(''/srv/site/afile2.js'', Node False []),
         (''/srv/site/file1.js'', Node False []),
         (''/srv/site/file2.js'', Node True [(''/srv/site/file1.js'', Node False [])])],
      IVS_MAPPING =
        [(''file2.js'', [(''mask'', replicate 64 CHR ''0''), (''Q0lQSEVS'', ''SVZJVklWSVY='')])],
      globalHashes = [],
      aesCbcDecrypt = (\<lambda>key iv ct. None),
      windowFunction = (\<lambda>name. False),
      JSON_parse = (\<lambda>s. None)\<rparr>"

section \<open>Router.js: the tamper verifier\<close>

text \<open>\<open>fullPath.split('\\').pop()\<close>\<close>

definition lastBackslashSegment :: "string \<Rightarrow> string" where
  "lastBackslashSegment fullPath = last (splitBy (\<lambda>c. c = CHR 0x5C) fullPath)"

definition simplifiedPrecomputed :: "(string \<times> string) list \<Rightarrow> (string \<times> string) list" where
  "simplifiedPrecomputed precomputed =
     foldl (\<lambda>obj (fullPath, h). obj_set obj (lastBackslashSegment fullPath) h) [] precomputed"

fun verifyLoop :: "(string \<times> string) list \<Rightarrow> (string \<times> string) list \<Rightarrow> event list" where
  "verifyLoop live [] = [LogAllMatch]"
| "verifyLoop live ((file, expectedHash) # rest) =
     ReadLiveHash file #
     (if expectedHash = [] \<or> map_of live file \<noteq> Some expectedHash
      then [WarnMismatch file, ShowTamperOverlay]
      else verifyLoop live rest)"

definition verifyHashes :: "(string \<times> string) list \<Rightarrow> (string \<times> string) list \<Rightarrow> event list" where
  "verifyHashes precomputed live = verifyLoop live (simplifiedPrecomputed precomputed)"

text \<open>A precomputed table with Windows paths, used as a concrete input below.\<close>

definition windowsPrecomputed :: "(string \<times> string) list" where
  "windowsPrecomputed =
     [(''C:'' @ [CHR 0x5C] @ ''site'' @ [CHR 0x5C] @ ''file1.js'', ''aa''),
      (''C:'' @ [CHR 0x5C] @ ''site'' @ [CHR 0x5C] @ ''testdep'' @ [CHR 0x5C] @ ''file4.js'', ''bb'')]"

text \<open>A precomputed table in which two full paths have the same bare name.\<close>

definition collidingPrecomputed :: "(string \<times> string) list" where
  "collidingPrecomputed =
     [(''C:'' @ [CHR 0x5C] @ ''site'' @ [CHR 0x5C] @ ''a'' @ [CHR 0x5C] @ ''file1.js'', ''aa''),
      (''C:'' @ [CHR 0x5C] @ ''site'' @ [CHR 0x5C] @ ''b'' @ [CHR 0x5C] @ ''file1.js'', ''bb'')]"

text \<open>
  \<open>waitForGlobalHashes\<close>: the k-th run of \<open>check\<close> sees the live table \<open>liveAt k\<close> and the
  clock reading \<open>Date.now() - startTime = elapsedAt k\<close>. It resolves, rejects, or asks for
  another run; a wait that never settles is \<open>None\<close>.
\<close>

datatype settled = Resolved nat | Rejected nat

partial_function (option) check ::
  "(nat \<Rightarrow> (string \<times> string) list) \<Rightarrow> (nat \<Rightarrow> int) \<Rightarrow> int \<Rightarrow> nat \<Rightarrow> settled option" where
  "check liveAt elapsedAt timeout k =
     (if liveAt k \<noteq> [] then Some (Resolved k)
      else if timeout \<le> elapsedAt k then Some (Rejected k)
      else check liveAt elapsedAt timeout (Suc k))"

text \<open>
  The start of the file: \<open>waitForGlobalHashes()\<close> with its defaults (5000 ms, polling
  every 100 ms), then \<open>verifyHashes\<close> on the table as it is then, or the overlay.
\<close>

definition startup ::
  "(string \<times> string) list \<Rightarrow> (nat \<Rightarrow> (string \<times> string) list) \<Rightarrow> (nat \<Rightarrow> int) \<Rightarrow> event list option" where
  "startup precomputed liveAt elapsedAt =
     (case check liveAt elapsedAt 5000 0 of
        None \<Rightarrow> None
      | Some (Resolved k) \<Rightarrow> Some (verifyHashes precomputed (liveAt k))
      | Some (Rejected k) \<Rightarrow> Some [ErrTimeout, ShowTamperOverlay])"

section \<open>RouterCallsCreator.js: the analyzer\<close>

text \<open>\<open>content.includes(marker)\<close>\<close>

fun includes_js :: "string \<Rightarrow> string \<Rightarrow> bool" where
  "includes_js [] t = (t = [])"
| "includes_js (c # cs) t = (take (length t) (c # cs) = t \<or> includes_js cs t)"

definition isRouterDependant :: "string \<Rightarrow> bool" where
  "isRouterDependant content \<longleftrightarrow>
     includes_js content (''window['' @ [CHR 0x22] @ ''routerForwardCall'' @ [CHR 0x22] @ '']'')
     \<or> includes_js content (''window['' @ [CHR 0x27] @ ''routerForwardCall'' @ [CHR 0x27] @ '']'')"

text \<open>
  What \<open>processFile\<close> reads from the enclosing \<open>analyzeDependencies\<close>: the list of
  project files, the cached contents, and the two indexes. The three regular-expression
  passes over a file's text are functions of the text: \<open>routerCallMatches\<close> gives the
  first group of every match of \<open>routerCallRegex\<close>, in order, and \<open>getCalledFunctions\<close>
  and \<open>getDeclaredFunctions\<close> give the elements of the returned Sets, in insertion order.
\<close>

record analysis =
  allFiles :: "string list"
  fileContents :: "(string \<times> string) list"
  fileBaseIndex :: "(string \<times> string) list"
  globalFunctionIndex :: "(string \<times> string) list"
  routerCallMatches :: "string \<Rightarrow> string list"
  getCalledFunctions :: "string \<Rightarrow> string list"
  getDeclaredFunctions :: "string \<Rightarrow> string list"

text \<open>
  The files that the two loops of \<open>processFile\<close> consider, in order: for each router
  call the file of its base name, when the index has one; then for each called function
  that the file does not declare itself, the file of the global index, when it is a
  project file. An empty path is falsy and is skipped.
\<close>

definition routerCallFiles :: "analysis \<Rightarrow> string \<Rightarrow> string list" where
  "routerCallFiles a content =
     filter (\<lambda>dependentFile. dependentFile \<noteq> [])
       (List.map_filter (map_of (fileBaseIndex a)) (routerCallMatches a content))"

definition calledFunctionFiles :: "analysis \<Rightarrow> string \<Rightarrow> string list" where
  "calledFunctionFiles a content =
     filter (\<lambda>dependentFile. dependentFile \<noteq> [] \<and> dependentFile \<in> set (allFiles a))
       (List.map_filter (map_of (globalFunctionIndex a))
          (filter (\<lambda>fnName. fnName \<notin> set (getDeclaredFunctions a content))
             (getCalledFunctions a content)))"

definition dependentFiles :: "analysis \<Rightarrow> string \<Rightarrow> string list" where
  "dependentFiles a content = routerCallFiles a content @ calledFunctionFiles a content"

text \<open>
  \<open>processFile(file, visited)\<close>. The first argument bounds the depth of the call stack:
  \<open>None\<close> is a stack that would go deeper. \<open>Some None\<close> is the return of \<open>undefined\<close>.
  Every recursive call gets its own copy of \<open>visited\<close>, so the set is passed by value.
  \<open>processDependents\<close> is the body shared by the two loops, with \<open>dependencies\<close> as its
  state. (The pushes to \<open>dependencyMatrix\<close> are left out: nothing reads it but the
  printed table.)
\<close>

fun processFile :: "nat \<Rightarrow> analysis \<Rightarrow> string \<Rightarrow> string set \<Rightarrow> node option option"
  and processDependents ::
    "nat \<Rightarrow> analysis \<Rightarrow> string \<Rightarrow> string set \<Rightarrow> string list \<Rightarrow> (string \<times> node) list
       \<Rightarrow> (string \<times> node) list option" where
  "processFile 0 a file visited = None"
| "processFile (Suc n) a file visited =
     (if file \<in> visited then Some None
      else (case map_of (fileContents a) file of
              None \<Rightarrow> Some None
            | Some content \<Rightarrow>
                (case processDependents n a file (insert file visited)
                        (dependentFiles a content) [] of
                   None \<Rightarrow> None
                 | Some deps \<Rightarrow> Some (Some (Node (isRouterDependant content) deps)))))"
| "processDependents n a file visited [] deps = Some deps"
| "processDependents n a file visited (dependentFile # others) deps =
     (if dependentFile \<noteq> file \<and> dependentFile \<notin> visited then
        (case processFile n a dependentFile visited of
           None \<Rightarrow> None
         | Some None \<Rightarrow> processDependents n a file visited others deps
         | Some (Some child) \<Rightarrow>
             processDependents n a file visited others (obj_set deps dependentFile child))
      else processDependents n a file visited others deps)"

text \<open>The depth of a tree, which is the depth of the stack of a traversal of it.\<close>

fun height :: "node \<Rightarrow> nat" and heights :: "(string \<times> node) list \<Rightarrow> nat" where
  "height (Node rd ds) = Suc (heights ds)"
| "heights [] = 0"
| "heights ((f, n) # rest) = max (height n) (heights rest)"

section \<open>RouterCallsCreator.js: the key of a router-dependent file\<close>

text \<open>
  \<open>collectHashesFromDependencies(dependencies, visited, fileContents)\<close>, with the local
  object \<open>collected\<close> as the state of its loop; \<open>visited\<close> is one Set shared by all the
  calls, so it is returned with the result. \<open>sha256hex\<close> is
  \<open>crypto.createHash('sha256').update(content).digest('hex')\<close>. A file whose content is
  missing or the empty string is falsy and is not hashed.
\<close>

fun collectHashesLoop ::
  "(string \<Rightarrow> string) \<Rightarrow> (string \<times> string) list \<Rightarrow> (string \<times> node) list
     \<Rightarrow> (string \<times> byte list) list \<Rightarrow> string set
     \<Rightarrow> exn + ((string \<times> byte list) list \<times> string set)" where
  "collectHashesLoop sha256hex contents [] collected visited = Inr (collected, visited)"
| "collectHashesLoop sha256hex contents ((depFile, Node rd ds) # rest) collected visited =
     (if depFile \<in> visited then collectHashesLoop sha256hex contents rest collected visited
      else
        (case (if \<not> rd then
                 (case map_of contents depFile of
                    None \<Rightarrow> Inr collected
                  | Some content \<Rightarrow>
                      if content = [] then Inr collected
                      else (case hexStringToUint8Array (sha256hex content) of
                              Inl e \<Rightarrow> Inl e
                            | Inr hashUint8 \<Rightarrow> Inr (obj_set collected depFile hashUint8)))
               else Inr collected) of
           Inl e \<Rightarrow> Inl e
         | Inr collected1 \<Rightarrow>
             (case collectHashesLoop sha256hex contents ds [] (insert depFile visited) of
                Inl e \<Rightarrow> Inl e
              | Inr (subCollected, visited2) \<Rightarrow>
                  collectHashesLoop sha256hex contents rest
                    (foldl (\<lambda>c (k, v). obj_set c k v) collected1 subCollected) visited2)))"

definition collectHashesFromDependencies ::
  "(string \<Rightarrow> string) \<Rightarrow> (string \<times> string) list \<Rightarrow> (string \<times> node) list \<Rightarrow> string set
     \<Rightarrow> exn + ((string \<times> byte list) list \<times> string set)" where
  "collectHashesFromDependencies sha256hex contents deps visited =
     collectHashesLoop sha256hex contents deps [] visited"

text \<open>
  \<open>computeKeyForRouterFile\<close>, with the 32 random bytes of the mask as an argument. The
  returned object holds the values as hex strings; \<open>recompileRouterFiles\<close> reads the key
  back with \<open>hexStringToUint8Array\<close>, and the mask is published as it is here. (Its
  fields \<open>routerFile\<close>, \<open>collectedHashes\<close> and \<open>encryptedCalls\<close> are left out.)
\<close>

record keyDetails =
  xorOfHashes :: string
  maskHex :: string
  keyHex :: string

definition computeKeyForRouterFile ::
  "(string \<Rightarrow> string) \<Rightarrow> (string \<times> string) list \<Rightarrow> node \<Rightarrow> byte list \<Rightarrow> exn + keyDetails" where
  "computeKeyForRouterFile sha256hex contents routerNode randomMask =
     (case collectHashesFromDependencies sha256hex contents (dependencies routerNode) {} of
        Inl e \<Rightarrow> Inl e
      | Inr (collectedHashes, visited) \<Rightarrow>
          (case xorFold (newUint8Array 32) (map snd collectedHashes) of
             Inl e \<Rightarrow> Inl e
           | Inr xorResult \<Rightarrow>
               (case xorBuffers xorResult randomMask of
                  Inl e \<Rightarrow> Inl e
                | Inr finalKey \<Rightarrow>
                    Inr \<lparr>xorOfHashes = uint8ArrayToHexString xorResult,
                         maskHex = uint8ArrayToHexString randomMask,
                         keyHex = uint8ArrayToHexString finalKey\<rparr>)))"

section \<open>Concrete projects and pages\<close>

text \<open>
  A mask of 32 zero bytes, and a page without a browser behind it.
\<close>

definition zeroMask :: "byte list" where
  "zeroMask = replicate 32 0"

definition noBrowser :: "(string \<times> node) list \<Rightarrow> (string \<times> (string \<times> string) list) list
    \<Rightarrow> (string \<times> string) list \<Rightarrow> page" where
  "noBrowser tree ivs live =
     \<lparr>DEPENDENCY_TREE = tree, IVS_MAPPING = ivs, globalHashes = live,
      aesCbcDecrypt = (\<lambda>key iv ct. None), windowFunction = (\<lambda>name. False),
      JSON_parse = (\<lambda>s. None)\<rparr>"

text \<open>
  A project of two files that call each other: \<open>a.js\<close> calls \<open>g\<close> of \<open>b.js\<close> through the
  router, and \<open>b.js\<close> calls \<open>f\<close> of \<open>a.js\<close> directly. The page is the one built from it,
  with \<open>cycleDigest\<close> standing for the digest function and \<open>cycleMask\<close> for the random mask.
\<close>

definition cycleContentA :: string where
  "cycleContentA =
     ''function f(){ window['' @ [CHR 0x22] @ ''routerForwardCall'' @ [CHR 0x22] @ '']('' @ [CHR 0x22]
       @ ''b-g-null-null'' @ [CHR 0x22] @ '', '' @ [CHR 0x22] @ ''a'' @ [CHR 0x22] @ ''); }''"

definition cycleContentB :: string where
  "cycleContentB = ''function g(){ f(); }''"

definition cycleProject :: analysis where
  "cycleProject =
     \<lparr>allFiles = [''/srv/site/a.js'', ''/srv/site/b.js''],
      fileContents = [(''/srv/site/a.js'', cycleContentA), (''/srv/site/b.js'', cycleContentB)],
      fileBaseIndex = [(''a'', ''/srv/site/a.js''), (''b'', ''/srv/site/b.js'')],
      globalFunctionIndex = [(''f'', ''/srv/site/a.js''), (''g'', ''/srv/site/b.js'')],
      routerCallMatches = (\<lambda>content. if content = cycleContentA then [''b''] else []),
      getCalledFunctions = (\<lambda>content. if content = cycleContentA then [''f''] else [''g'', ''f'']),
      getDeclaredFunctions = (\<lambda>content. if content = cycleContentA then [''f''] else [''g''])\<rparr>"

definition cycleDigest :: "string \<Rightarrow> string" where
  "cycleDigest content = ''2422855eb99b1e77454695ad52a48be879c3b8d8eb42f7864361cfbe92fae89a''"

definition cycleMask :: "byte list" where
  "cycleMask = replicate 32 0xAB"

definition cyclePage :: page where
  "cyclePage =
     noBrowser
       [(''/srv/site/a.js'', Node True [(''/srv/site/b.js'', Node False [])]),
        (''/srv/site/b.js'', Node False [(''/srv/site/a.js'', Node True [])])]
       [(''a.js'', [(''mask'', uint8ArrayToHexString cycleMask)])]
       [(''b.js'', cycleDigest cycleContentB)]"

text \<open>Two router-dependent files that call each other: the branch of each is empty.\<close>

definition routersOnlyNode :: node where
  "routersOnlyNode = Node True [(''/srv/site/b.js'', Node True [])]"

definition routersOnlyPage :: page where
  "routersOnlyPage =
     noBrowser
       [(''/srv/site/a.js'', routersOnlyNode),
        (''/srv/site/b.js'', Node True [(''/srv/site/a.js'', Node True [])])]
       [(''a.js'', [(''mask'', uint8ArrayToHexString zeroMask)]),
        (''b.js'', [(''mask'', uint8ArrayToHexString zeroMask)])]
       []"

text \<open>A router-dependent file whose one dependency is an empty file.\<close>

definition emptyDigest :: string where
  "emptyDigest = ''e3b0c44298fc1c149afbf4c8996fb92427ae41e4649b934ca495991b7852b855''"

definition emptyDepNode :: node where
  "emptyDepNode = Node True [(''/srv/site/empty.js'', Node False [])]"

definition emptyDepPage :: page where
  "emptyDepPage =
     noBrowser
       [(''/srv/site/a.js'', emptyDepNode), (''/srv/site/empty.js'', Node False [])]
       [(''a.js'', [(''mask'', uint8ArrayToHexString zeroMask)])]
       [(''empty.js'', emptyDigest)]"

text \<open>
  A tree in which \<open>p.js\<close> occurs twice with different dependencies, which
  \<open>processFile\<close> does not build.
\<close>

definition unevenNode :: node where
  "unevenNode =
     Node True
       [(''/srv/site/p.js'', Node False []),
        (''/srv/site/x.js'',
         Node True [(''/srv/site/p.js'', Node False [(''/srv/site/q.js'', Node False [])])])]"

definition unevenDigest :: "string \<Rightarrow> string" where
  "unevenDigest content = (if content = ''p'' then replicate 64 CHR ''1'' else replicate 64 CHR ''2'')"

definition unevenPage :: page where
  "unevenPage =
     noBrowser
       [(''/srv/site/a.js'', unevenNode)]
       [(''a.js'', [(''mask'', uint8ArrayToHexString zeroMask)])]
       [(''p.js'', replicate 64 CHR ''1''), (''q.js'', replicate 64 CHR ''2'')]"

section \<open>Notions for the proofs\<close>

text \<open>
  The files that have an entry in \<open>fileContents\<close>.
\<close>

definition contentFiles :: "analysis \<Rightarrow> string set" where
  "contentFiles a = fst ` set (fileContents a)"

text \<open>
  The files with content that the text of a file refers to.
\<close>

definition dependentsOf :: "analysis \<Rightarrow> string \<Rightarrow> string set" where
  "dependentsOf a d =
     (case map_of (fileContents a) d of
        None \<Rightarrow> {}
      | Some content \<Rightarrow> {e \<in> set (dependentFiles a content). e \<in> contentFiles a})"

text \<open>
  \<open>builtForest a V ds\<close>: \<open>ds\<close> is a \<open>dependencies\<close> object as \<open>processFile\<close> builds it
  under the visited set \<open>V\<close>: every entry is a file with content, outside \<open>V\<close>, flagged by
  its own text, and its dependencies are exactly the files its text refers to that are
  not visited on this branch.
\<close>

fun builtForest :: "analysis \<Rightarrow> string set \<Rightarrow> (string \<times> node) list \<Rightarrow> bool" where
  "builtForest a V [] = True"
| "builtForest a V ((d, Node rd ds) # rest) =
     (d \<notin> V
      \<and> (\<exists>content. map_of (fileContents a) d = Some content \<and> rd = isRouterDependant content)
      \<and> fst ` set ds = dependentsOf a d - insert d V
      \<and> builtForest a (insert d V) ds
      \<and> builtForest a V rest)"

text \<open>
  All paths of a \<open>dependencies\<close> object, and those of its nodes that are not
  router-dependent.
\<close>

fun treeFiles :: "(string \<times> node) list \<Rightarrow> string set" where
  "treeFiles [] = {}"
| "treeFiles ((d, Node rd ds) # rest) = insert d (treeFiles ds \<union> treeFiles rest)"

fun nonRouterFiles :: "(string \<times> node) list \<Rightarrow> string set" where
  "nonRouterFiles [] = {}"
| "nonRouterFiles ((d, Node rd ds) # rest) =
     (if rd then {} else {d}) \<union> nonRouterFiles ds \<union> nonRouterFiles rest"

text \<open>
  The \<open>visited\<close> Set and the \<open>collected\<close> entries that
  \<open>collectHashesFromDependencies\<close> ends with, as plain recursive functions.
\<close>

fun visitedAfter :: "(string \<times> node) list \<Rightarrow> string set \<Rightarrow> string set" where
  "visitedAfter [] visited = visited"
| "visitedAfter ((d, Node rd ds) # rest) visited =
     (if d \<in> visited then visitedAfter rest visited
      else visitedAfter rest (visitedAfter ds (insert d visited)))"

definition ownHash ::
  "(string \<Rightarrow> string) \<Rightarrow> (string \<times> string) list \<Rightarrow> string \<Rightarrow> bool \<Rightarrow> (string \<times> byte list) list" where
  "ownHash sha contents d rd =
     (case map_of contents d of
        None \<Rightarrow> []
      | Some content \<Rightarrow> if rd \<or> content = [] then [] else [(d, hexPairs (sha content))])"

fun hashesAfter ::
  "(string \<Rightarrow> string) \<Rightarrow> (string \<times> string) list \<Rightarrow> (string \<times> node) list \<Rightarrow> string set
     \<Rightarrow> (string \<times> byte list) list" where
  "hashesAfter sha contents [] visited = []"
| "hashesAfter sha contents ((d, Node rd ds) # rest) visited =
     (if d \<in> visited then hashesAfter sha contents rest visited
      else ownHash sha contents d rd
           @ hashesAfter sha contents ds (insert d visited)
           @ hashesAfter sha contents rest (visitedAfter ds (insert d visited)))"

text \<open>\<open>xorBuffers\<close> without the length check, with the accumulator last.\<close>

definition xorBytes :: "byte list \<Rightarrow> byte list \<Rightarrow> byte list" where
  "xorBytes h acc = map (\<lambda>(x, y). x XOR y) (zip acc h)"

section \<open>XOR fold: order independence\<close>

lemma length_xorBytes: "length (xorBytes h acc) = min (length acc) (length h)"
  by (simp add: xorBytes_def)

lemma xorBytes_commute: "xorBytes x (xorBytes y acc) = xorBytes y (xorBytes x acc)"
proof (rule nth_equalityI)
  show "length (xorBytes x (xorBytes y acc)) = length (xorBytes y (xorBytes x acc))"
    by (simp add: length_xorBytes min.commute min.left_commute)
next
  fix i
  assume "i < length (xorBytes x (xorBytes y acc))"
  then have i: "i < length acc" "i < length x" "i < length y"
    by (simp_all add: length_xorBytes)
  then show "xorBytes x (xorBytes y acc) ! i = xorBytes y (xorBytes x acc) ! i"
    by (simp add: xorBytes_def xor.assoc xor.left_commute xor.commute)
qed

lemma xorFold_fold:
  "\<forall>h \<in> set hs. length h = length acc \<Longrightarrow> xorFold acc hs = Inr (fold xorBytes hs acc)"
proof (induction hs arbitrary: acc)
  case Nil
  then show ?case by simp
next
  case (Cons h hs)
  have len: "length (xorBytes h acc) = length acc"
    using Cons.prems by (simp add: length_xorBytes)
  have "xorFold (xorBytes h acc) hs = Inr (fold xorBytes hs (xorBytes h acc))"
    by (rule Cons.IH) (use Cons.prems len in simp)
  moreover have "xorBuffers acc h = Inr (xorBytes h acc)"
    using Cons.prems by (simp add: xorBuffers_def xorBytes_def)
  ultimately show ?case by simp
qed

lemma fold_xorBytes_mset:
  "mset hs = mset hs' \<Longrightarrow> fold xorBytes hs acc = fold xorBytes hs' acc"
proof -
  assume eq: "mset hs = mset hs'"
  have "fold xorBytes hs = fold xorBytes hs'"
    by (rule fold_multiset_equiv [OF _ eq]) (simp add: fun_eq_iff xorBytes_commute)
  then show ?thesis by simp
qed

lemma length_fold_xorBytes:
  "\<forall>h \<in> set hs. length h = length acc \<Longrightarrow> length (fold xorBytes hs acc) = length acc"
  by (induction hs arbitrary: acc) (simp_all add: length_xorBytes)

text \<open>
  C7. For every list of 32-byte hash values, folding it into the zero 32-byte accumulator
  with \<open>xorBuffers\<close> never throws, and every permutation of the list gives the same
  accumulator.
\<close>

theorem xor_fold_order_independent:
  assumes "\<forall>h \<in> set hs. length h = 32" and "mset hs' = mset hs"
  shows "xorFold (newUint8Array 32) hs' = xorFold (newUint8Array 32) hs
         \<and> (\<exists>r. xorFold (newUint8Array 32) hs = Inr r \<and> length r = 32)"
proof -
  have set_eq: "set hs' = set hs"
    using assms(2) by (rule mset_eq_setD)
  have a: "\<forall>h \<in> set hs. length h = length (newUint8Array 32)"
    using assms(1) by (simp add: newUint8Array_def)
  have b: "\<forall>h \<in> set hs'. length h = length (newUint8Array 32)"
    using a set_eq by simp
  have "xorFold (newUint8Array 32) hs' = Inr (fold xorBytes hs' (newUint8Array 32))"
    using b by (rule xorFold_fold)
  moreover have "xorFold (newUint8Array 32) hs = Inr (fold xorBytes hs (newUint8Array 32))"
    using a by (rule xorFold_fold)
  moreover have "fold xorBytes hs' (newUint8Array 32) = fold xorBytes hs (newUint8Array 32)"
    using assms(2) by (rule fold_xorBytes_mset)
  moreover have "length (fold xorBytes hs (newUint8Array 32)) = 32"
    using length_fold_xorBytes [OF a] by (simp add: newUint8Array_def)
  ultimately show ?thesis by simp
qed

theorem xor_fold_order_independent_witness:
  "xorFold (newUint8Array 32) [replicate 32 1, replicate 32 2, replicate 32 4]
     = xorFold (newUint8Array 32) [replicate 32 4, replicate 32 1, replicate 32 2]
   \<and> (\<exists>r. xorFold (newUint8Array 32) [replicate 32 4, replicate 32 1, replicate 32 2] = Inr r
          \<and> length r = 32)"
  using xor_fold_order_independent
    [of "[replicate 32 4, replicate 32 1, replicate 32 2]"
        "[replicate 32 1, replicate 32 2, replicate 32 4]"]
  by simp


section \<open>parseAndCall: descriptors in static form\<close>

text \<open>
  C3. With no trailing arguments, the descriptor \<open>file3-funct1-number,string-7,hello\<close>
  gives the argument list \<open>[7, "hello"]\<close>, the descriptor \<open>file3-funct1-null-null\<close> gives
  the empty argument list, and a descriptor whose split at the dashes has other than 4
  fields is logged as invalid and nothing is called.
\<close>

theorem static_descriptor_parsing:
  "parseAndCall pg ''file3-funct1-number,string-7,hello'' caller [] =
     LogCaller caller #
       (if windowFunction pg ''funct1''
        then [Invoke ''funct1'' [JNumber 7, JString ''hello'']]
        else [ErrNoFunction (Some ''funct1'')])
   \<and> parseAndCall pg ''file3-funct1-null-null'' caller [] =
     LogCaller caller #
       (if windowFunction pg ''funct1'' then [Invoke ''funct1'' []]
        else [ErrNoFunction (Some ''funct1'')])
   \<and> (length (splitBy (\<lambda>c. c = CHR ''-'') callString) \<noteq> 4 \<longrightarrow>
        parseAndCall pg callString caller [] = [ErrInvalidFormat callString])"
proof (intro conjI impI)
  show "parseAndCall pg ''file3-funct1-number,string-7,hello'' caller [] =
     LogCaller caller #
       (if windowFunction pg ''funct1''
        then [Invoke ''funct1'' [JNumber 7, JString ''hello'']]
        else [ErrNoFunction (Some ''funct1'')])"
    by (simp add: parseAndCall_def dispatch_def convertParam_def Number_js_def isDigit_def
        decimalValue_def)
  show "parseAndCall pg ''file3-funct1-null-null'' caller [] =
     LogCaller caller #
       (if windowFunction pg ''funct1'' then [Invoke ''funct1'' []]
        else [ErrNoFunction (Some ''funct1'')])"
    by (simp add: parseAndCall_def dispatch_def)
  show "parseAndCall pg callString caller [] = [ErrInvalidFormat callString]"
    if "length (splitBy (\<lambda>c. c = CHR ''-'') callString) \<noteq> 4"
    using that by (simp add: parseAndCall_def)
qed

theorem static_descriptor_parsing_witness:
  "parseAndCall
     \<lparr>DEPENDENCY_TREE = [], IVS_MAPPING = [], globalHashes = [],
      aesCbcDecrypt = (\<lambda>k iv ct. None), windowFunction = (\<lambda>name. name = ''funct1''),
      JSON_parse = (\<lambda>s. None)\<rparr>
     ''file3-funct1-number,string-7,hello'' ''file2'' []
     = [LogCaller ''file2'', Invoke ''funct1'' [JNumber 7, JString ''hello'']]
   \<and> parseAndCall
     \<lparr>DEPENDENCY_TREE = [], IVS_MAPPING = [], globalHashes = [],
      aesCbcDecrypt = (\<lambda>k iv ct. None), windowFunction = (\<lambda>name. name = ''funct1''),
      JSON_parse = (\<lambda>s. None)\<rparr>
     ''file3-funct1-null-null'' ''file2'' []
     = [LogCaller ''file2'', Invoke ''funct1'' []]
   \<and> length (splitBy (\<lambda>c. c = CHR ''-'') ''file3-funct1-null'') \<noteq> 4
   \<and> parseAndCall
     \<lparr>DEPENDENCY_TREE = [], IVS_MAPPING = [], globalHashes = [],
      aesCbcDecrypt = (\<lambda>k iv ct. None), windowFunction = (\<lambda>name. name = ''funct1''),
      JSON_parse = (\<lambda>s. None)\<rparr>
     ''file3-funct1-null'' ''file2'' []
     = [ErrInvalidFormat ''file3-funct1-null'']"
  using static_descriptor_parsing
    [of "\<lparr>DEPENDENCY_TREE = [], IVS_MAPPING = [], globalHashes = [],
      aesCbcDecrypt = (\<lambda>k iv ct. None), windowFunction = (\<lambda>name. name = ''funct1''),
      JSON_parse = (\<lambda>s. None)\<rparr>" "''file2''" "''file3-funct1-null''"]
  by simp

section \<open>routerForwardCall: trailing arguments\<close>

text \<open>
  Auxiliary: a page on which \<open>file2.js\<close> is router-dependent with one plain dependency,
  the call string \<open>Q0lQSEVS\<close> decrypts to the dynamic descriptor
  \<open>unfilejsqualunque-printing\<close>, and \<open>printing\<close> is a function of the window.
\<close>

lemma hexPairs_zeros: "hexPairs (replicate (2 * n) CHR ''0'') = replicate n 0"
  by (induction n)
     (simp_all add: toUint8_def parseInt16_def hexDigitVal_def isWhiteSpace_def)

lemma hexPairs_64_zeros: "hexPairs (replicate 64 CHR ''0'') = replicate 32 0"
  using hexPairs_zeros [of 32] by simp

lemma dynamicPage_key:
  "reconstructKey dynamicPage ''file2'' = Inr (FinalKey (replicate 32 0))"
  by (simp add: reconstructKey_def dynamicPage_def fileKeyOf_def endsWith_def collectBranch_def
      newUint8Array_def hexStringToUint8Array_def xorBuffers_def hexPairs_64_zeros
      truthyArray_def)

text \<open>
  C4 (as the code has it). \<open>routerForwardCall(ct, "file2", 15)\<close>, where \<open>ct\<close> decrypts
  to \<open>unfilejsqualunque-printing\<close>: \<open>printing\<close> is called with one argument, the array
  \<open>[15]\<close>, and not with the argument \<open>15\<close>.
\<close>

theorem dynamic_arguments_arrive_as_one_array:
  "routerForwardCall dynamicPage ''Q0lQSEVS'' ''file2'' [JNumber 15]
     = Inr [Invoke ''printing'' [JArray [JNumber 15]]]
   \<and> routerForwardCall dynamicPage ''Q0lQSEVS'' ''file2'' [JNumber 15]
     \<noteq> Inr [Invoke ''printing'' [JNumber 15]]"
  by (simp add: routerForwardCall_def dynamicPage_key promiseChain_def parseAndCall_def
      dispatch_def)
     (simp add: dynamicPage_def fileKeyOf_def endsWith_def)

section \<open>routerForwardCall: exceptions\<close>

text \<open>
  C5 (as the code has it). On a page whose dependency tree lists \<open>afile2.js\<close>, a file
  that is not router-dependent, before \<open>file2.js\<close>, the call
  \<open>routerForwardCall(ct, "file2")\<close> takes \<open>afile2.js\<close> as the branch root, because its
  path ends with \<open>file2.js\<close>, and throws a ReferenceError to its caller.
\<close>

theorem routerForwardCall_throws_ReferenceError:
  "routerForwardCall suffixClashPage ''Q0lQSEVS'' ''file2'' [] = Inl ReferenceError"
  by (simp add: routerForwardCall_def reconstructKey_def suffixClashPage_def fileKeyOf_def
      endsWith_def collectBranch_def)


section \<open>routerForwardCall: the guard after the hash fold\<close>

lemma convertParam_events:
  "e \<in> set (fst (convertParam pg t v)) \<Longrightarrow> e = ErrObjectParse \<or> e = WarnUnknownType"
  by (auto simp: convertParam_def split: if_splits option.splits)

lemma dispatch_no_ErrNoHashes: "ErrNoHashes bf \<notin> set (dispatch pg parts params)"
  by (simp add: dispatch_def)

lemma parseAndCall_no_ErrNoHashes: "ErrNoHashes bf \<notin> set (parseAndCall pg s c args)"
  by (auto simp: parseAndCall_def Let_def dispatch_no_ErrNoHashes dest!: convertParam_events)

lemma promiseChain_no_ErrNoHashes:
  "ErrNoHashes bf \<notin> set (promiseChain pg m key callString callee args)"
  by (simp add: promiseChain_def Let_def parseAndCall_no_ErrNoHashes split: option.splits)

lemma reconstructKey_no_ErrNoHashes:
  "reconstructKey pg callee = Inr (Returned evs) \<Longrightarrow> ErrNoHashes bf \<notin> set evs"
  by (auto simp: reconstructKey_def Let_def truthyArray_def
      split: option.splits if_splits sum.splits)

lemma reconstructKey_early_no_ErrNoHashes:
  "reconstructKey_early pg callee = Inr (Returned evs) \<Longrightarrow> ErrNoHashes bf \<notin> set evs"
  by (auto simp: reconstructKey_early_def Let_def truthyArray_def
      split: option.splits if_splits sum.splits)

lemma liveFold_no_live_hash:
  "\<forall>f \<in> set files. map_of live (fileNameOf f) = None \<Longrightarrow> liveFold live acc files = Inr acc"
  by (induction files) simp_all

lemma length_hexPairs: "length (hexPairs s) = length s div 2"
  by (induction s rule: hexPairs.induct) simp_all

lemma xorBuffers_zero:
  "length m = n \<Longrightarrow> xorBuffers (replicate n 0) m = Inr m"
  by (auto simp: xorBuffers_def intro!: nth_equalityI)

text \<open>
  C10. The events of \<open>routerForwardCall\<close> never contain "No hashes found for branch",
  in the shipped Router.js and in the earlier variant. When the mapping and a
  64-character mask are there, the branch is not empty and the live table has none of
  its files, the key is the mask itself and the call goes on to the promise chain with
  it.
\<close>

theorem no_hashes_guard_unreachable:
  "(\<forall>evs bf. routerForwardCall pg callString callee args = Inr evs \<longrightarrow>
        ErrNoHashes bf \<notin> set evs)
   \<and> (\<forall>evs bf. reconstructKey_early pg callee = Inr (Returned evs) \<longrightarrow>
        ErrNoHashes bf \<notin> set evs)
   \<and> (map_of (IVS_MAPPING pg) (fileKeyOf callee) = Some mappingForFile
      \<and> map_of mappingForFile ''mask'' = Some publishedMask \<and> length publishedMask = 64
      \<and> collectBranch (DEPENDENCY_TREE pg) (fileKeyOf callee) = Inr branchFiles
      \<and> branchFiles \<noteq> []
      \<and> (\<forall>f \<in> set branchFiles. map_of (globalHashes pg) (fileNameOf f) = None)
      \<longrightarrow> hexStringToUint8Array publishedMask = Inr (hexPairs publishedMask)
        \<and> reconstructKey pg callee = Inr (FinalKey (hexPairs publishedMask))
        \<and> routerForwardCall pg callString callee args =
            Inr (promiseChain pg mappingForFile (hexPairs publishedMask) callString callee args))
   \<and> (map_of (IVS_MAPPING pg) (fileKeyOf callee) = Some mappingForFile
      \<and> map_of mappingForFile ''mask'' = Some publishedMask \<and> length publishedMask = 64
      \<and> collectBranch_early (DEPENDENCY_TREE pg) (fileKeyOf callee) \<noteq> []
      \<and> (\<forall>f \<in> set (collectBranch_early (DEPENDENCY_TREE pg) (fileKeyOf callee)).
            map_of (globalHashes pg) (fileNameOf f) = None)
      \<longrightarrow> reconstructKey_early pg callee = Inr (FinalKey (hexPairs publishedMask)))"
proof (intro conjI allI impI)
  fix evs bf
  assume "routerForwardCall pg callString callee args = Inr evs"
  then show "ErrNoHashes bf \<notin> set evs"
    by (auto simp: routerForwardCall_def promiseChain_no_ErrNoHashes
        split: sum.splits keyResult.splits dest: reconstructKey_no_ErrNoHashes)
next
  fix evs bf
  assume "reconstructKey_early pg callee = Inr (Returned evs)"
  then show "ErrNoHashes bf \<notin> set evs"
    by (rule reconstructKey_early_no_ErrNoHashes)
next
  assume h: "map_of (IVS_MAPPING pg) (fileKeyOf callee) = Some mappingForFile
      \<and> map_of mappingForFile ''mask'' = Some publishedMask \<and> length publishedMask = 64
      \<and> collectBranch (DEPENDENCY_TREE pg) (fileKeyOf callee) = Inr branchFiles
      \<and> branchFiles \<noteq> []
      \<and> (\<forall>f \<in> set branchFiles. map_of (globalHashes pg) (fileNameOf f) = None)"
  show mask: "hexStringToUint8Array publishedMask = Inr (hexPairs publishedMask)"
    using h by (simp add: hexStringToUint8Array_def)
  have fold: "liveFold (globalHashes pg) (newUint8Array 32) branchFiles = Inr (newUint8Array 32)"
    using h by (simp add: liveFold_no_live_hash)
  have "length (hexPairs publishedMask) = 32"
    using h by (simp add: length_hexPairs)
  then have xor: "xorBuffers (newUint8Array 32) (hexPairs publishedMask) = Inr (hexPairs publishedMask)"
    by (simp add: newUint8Array_def xorBuffers_zero)
  have nonempty: "publishedMask \<noteq> []"
    using h by auto
  show key: "reconstructKey pg callee = Inr (FinalKey (hexPairs publishedMask))"
    using h nonempty by (simp add: reconstructKey_def fold mask xor truthyArray_def)
  show "routerForwardCall pg callString callee args =
            Inr (promiseChain pg mappingForFile (hexPairs publishedMask) callString callee args)"
    using h by (simp add: routerForwardCall_def key)
next
  assume h: "map_of (IVS_MAPPING pg) (fileKeyOf callee) = Some mappingForFile
      \<and> map_of mappingForFile ''mask'' = Some publishedMask \<and> length publishedMask = 64
      \<and> collectBranch_early (DEPENDENCY_TREE pg) (fileKeyOf callee) \<noteq> []
      \<and> (\<forall>f \<in> set (collectBranch_early (DEPENDENCY_TREE pg) (fileKeyOf callee)).
            map_of (globalHashes pg) (fileNameOf f) = None)"
  have mask: "hexStringToUint8Array publishedMask = Inr (hexPairs publishedMask)"
    using h by (simp add: hexStringToUint8Array_def)
  have fold: "liveFold (globalHashes pg) (newUint8Array 32)
      (collectBranch_early (DEPENDENCY_TREE pg) (fileKeyOf callee)) = Inr (newUint8Array 32)"
    using h by (simp add: liveFold_no_live_hash)
  have "length (hexPairs publishedMask) = 32"
    using h by (simp add: length_hexPairs)
  then have xor: "xorBuffers (newUint8Array 32) (hexPairs publishedMask) = Inr (hexPairs publishedMask)"
    by (simp add: newUint8Array_def xorBuffers_zero)
  have nonempty: "publishedMask \<noteq> []"
    using h by auto
  show "reconstructKey_early pg callee = Inr (FinalKey (hexPairs publishedMask))"
    using h nonempty by (simp add: reconstructKey_early_def Let_def fold mask xor truthyArray_def)
qed

theorem no_hashes_guard_unreachable_witness:
  "map_of (IVS_MAPPING dynamicPage) (fileKeyOf ''file2'')
     = Some [(''mask'', replicate 64 CHR ''0''), (''Q0lQSEVS'', ''SVZJVklWSVY='')]
   \<and> collectBranch (DEPENDENCY_TREE dynamicPage) (fileKeyOf ''file2'')
     = Inr [''/srv/site/testdep2/unfilejsqualunque.js'']
   \<and> map_of (globalHashes dynamicPage) (fileNameOf ''/srv/site/testdep2/unfilejsqualunque.js'')
     = None
   \<and> reconstructKey dynamicPage ''file2'' = Inr (FinalKey (hexPairs (replicate 64 CHR ''0'')))
   \<and> collectBranch_early (DEPENDENCY_TREE dynamicPage) (fileKeyOf ''file2'')
     = [''/srv/site/testdep2/unfilejsqualunque.js'']
   \<and> reconstructKey_early dynamicPage ''file2''
     = Inr (FinalKey (hexPairs (replicate 64 CHR ''0'')))
   \<and> routerForwardCall dynamicPage ''Q0lQSEVS'' ''file2'' [] = Inr [ErrInvalidFormat ''unfilejsqualunque-printing'']
   \<and> ErrNoHashes [''/srv/site/testdep2/unfilejsqualunque.js'']
       \<notin> set [ErrInvalidFormat ''unfilejsqualunque-printing'']"
proof -
  have m: "map_of (IVS_MAPPING dynamicPage) (fileKeyOf ''file2'')
     = Some [(''mask'', replicate 64 CHR ''0''), (''Q0lQSEVS'', ''SVZJVklWSVY='')]"
    by (simp add: dynamicPage_def fileKeyOf_def endsWith_def)
  have b: "collectBranch (DEPENDENCY_TREE dynamicPage) (fileKeyOf ''file2'')
     = Inr [''/srv/site/testdep2/unfilejsqualunque.js'']"
    by (simp add: dynamicPage_def fileKeyOf_def endsWith_def collectBranch_def)
  have g: "map_of (globalHashes dynamicPage)
      (fileNameOf ''/srv/site/testdep2/unfilejsqualunque.js'') = None"
    by (simp add: dynamicPage_def)
  have e: "collectBranch_early (DEPENDENCY_TREE dynamicPage) (fileKeyOf ''file2'')
     = [''/srv/site/testdep2/unfilejsqualunque.js'']"
    by (simp add: dynamicPage_def fileKeyOf_def endsWith_def collectBranch_early_def)
  have p: "promiseChain dynamicPage
      [(''mask'', replicate 64 CHR ''0''), (''Q0lQSEVS'', ''SVZJVklWSVY='')]
      (hexPairs (replicate 64 CHR ''0'')) ''Q0lQSEVS'' ''file2'' [] = [ErrInvalidFormat ''unfilejsqualunque-printing'']"
    by (simp add: promiseChain_def parseAndCall_def dispatch_def dynamicPage_def)
  show ?thesis
    using no_hashes_guard_unreachable
      [of dynamicPage "''Q0lQSEVS''" "''file2''" "[]"
          "[(''mask'', replicate 64 CHR ''0''), (''Q0lQSEVS'', ''SVZJVklWSVY='')]"
          "replicate 64 CHR ''0''" "[''/srv/site/testdep2/unfilejsqualunque.js'']"]
      m b g e p
    by simp
qed


section \<open>The tamper verifier\<close>

lemma keys_obj_set: "fst ` set (obj_set kvs k v) = insert k (fst ` set kvs)"
proof (induction kvs)
  case Nil
  then show ?case by simp
next
  case (Cons x kvs)
  obtain k' v' where x: "x = (k', v')" by (cases x)
  show ?case
  proof (cases "k' = k")
    case True
    then show ?thesis by (simp add: x)
  next
    case False
    then show ?thesis using Cons.IH by (simp add: x insert_commute)
  qed
qed

lemma map_of_obj_set: "map_of (obj_set kvs k v) = (map_of kvs)(k \<mapsto> v)"
  by (induction kvs) (auto simp: fun_eq_iff)

lemma splitBy_cong:
  "\<forall>c \<in> set s. p c = q c \<Longrightarrow> splitBy p s = splitBy q s"
  by (induction s) simp_all

lemma fileNameOf_backslash_path:
  "CHR ''/'' \<notin> set p \<Longrightarrow> lastBackslashSegment p = fileNameOf p"
proof -
  assume "CHR ''/'' \<notin> set p"
  then have "\<forall>c \<in> set p. (c = CHR 0x5C) = isSeparator c"
    by (auto simp: isSeparator_def)
  then have "splitBy (\<lambda>c. c = CHR 0x5C) p = splitBy isSeparator p"
    by (rule splitBy_cong)
  then show ?thesis by (simp add: lastBackslashSegment_def fileNameOf_def)
qed

lemma map_of_simplify_step:
  "map_of (foldl (\<lambda>obj (fullPath, h). obj_set obj (lastBackslashSegment fullPath) h) obj pre)
     = map_of obj ++ map_of (rev (map (\<lambda>(p, h). (lastBackslashSegment p, h)) pre))"
proof (induction pre arbitrary: obj)
  case Nil
  then show ?case by simp
next
  case (Cons x pre)
  obtain p h where x: "x = (p, h)" by (cases x)
  have "map_of (foldl (\<lambda>obj (fullPath, h). obj_set obj (lastBackslashSegment fullPath) h)
            (obj_set obj (lastBackslashSegment p) h) pre)
      = map_of (obj_set obj (lastBackslashSegment p) h)
          ++ map_of (rev (map (\<lambda>(p, h). (lastBackslashSegment p, h)) pre))"
    by (rule Cons.IH)
  also have "\<dots> = map_of obj
      ++ map_of (rev (map (\<lambda>(p, h). (lastBackslashSegment p, h)) ((p, h) # pre)))"
    by (simp add: map_of_obj_set fun_eq_iff map_add_def split: option.splits)
  finally show ?case by (simp add: x)
qed

lemma distinct_obj_set:
  "distinct (map fst kvs) \<Longrightarrow> distinct (map fst (obj_set kvs k v))"
proof (induction kvs)
  case Nil
  then show ?case by simp
next
  case (Cons x kvs)
  obtain k' v' where x: "x = (k', v')" by (cases x)
  show ?case
  proof (cases "k' = k")
    case True
    then show ?thesis using Cons.prems by (simp add: x)
  next
    case False
    have "k' \<notin> fst ` set (obj_set kvs k v)"
      using Cons.prems False by (simp add: x keys_obj_set)
    then show ?thesis using Cons False by (simp add: x)
  qed
qed

lemma distinct_simplify_step:
  "distinct (map fst obj) \<Longrightarrow>
     distinct (map fst
       (foldl (\<lambda>obj (fullPath, h). obj_set obj (lastBackslashSegment fullPath) h) obj pre))"
  by (induction pre arbitrary: obj) (auto simp: distinct_obj_set split: prod.splits)

lemma verifyLoop_all_match:
  "\<forall>(f, h) \<in> set S. h \<noteq> [] \<and> map_of live f = Some h \<Longrightarrow>
     verifyLoop live S = map (\<lambda>(f, h). ReadLiveHash f) S @ [LogAllMatch]"
  by (induction S) auto

lemma verifyLoop_first_mismatch:
  "\<forall>(f', h') \<in> set xs. h' \<noteq> [] \<and> map_of live f' = Some h' \<Longrightarrow>
   h = [] \<or> map_of live f \<noteq> Some h \<Longrightarrow>
     verifyLoop live (xs @ (f, h) # ys)
       = map (\<lambda>(f, h). ReadLiveHash f) xs @ [ReadLiveHash f, WarnMismatch f, ShowTamperOverlay]"
  by (induction xs) auto

text \<open>
  C2 (amended). For every precomputed table whose full paths are written with
  backslashes only, and every live table, \<open>verifyHashes\<close> works on the table keyed by
  bare file name, in which a bare name occurs once and holds the hash of the last full
  path with that name. If every entry of that table has a non-empty expected hash that
  the live table holds for its name, every entry is read, success is logged and no
  overlay is inserted. Otherwise the entries up to the first one whose expected hash is
  empty, missing from the live table or different are read, the overlay is inserted, and
  nothing after it is read.
\<close>

theorem verifyHashes_blocks_on_first_mismatch:
  assumes "\<forall>(p, h) \<in> set precomputed. CHR ''/'' \<notin> set p"
  shows "distinct (map fst (simplifiedPrecomputed precomputed))
     \<and> map_of (simplifiedPrecomputed precomputed)
         = map_of (rev (map (\<lambda>(p, h). (fileNameOf p, h)) precomputed))
     \<and> ((\<forall>(f, h) \<in> set (simplifiedPrecomputed precomputed).
            h \<noteq> [] \<and> map_of live f = Some h) \<longrightarrow>
          verifyHashes precomputed live
            = map (\<lambda>(f, h). ReadLiveHash f) (simplifiedPrecomputed precomputed) @ [LogAllMatch])
     \<and> (\<forall>xs f h ys.
          simplifiedPrecomputed precomputed = xs @ (f, h) # ys
          \<and> (\<forall>(f', h') \<in> set xs. h' \<noteq> [] \<and> map_of live f' = Some h')
          \<and> (h = [] \<or> map_of live f \<noteq> Some h) \<longrightarrow>
          verifyHashes precomputed live
            = map (\<lambda>(f, h). ReadLiveHash f) xs
              @ [ReadLiveHash f, WarnMismatch f, ShowTamperOverlay])"
proof (intro conjI allI impI)
  show "distinct (map fst (simplifiedPrecomputed precomputed))"
    using distinct_simplify_step [of "[]" precomputed] by (simp add: simplifiedPrecomputed_def)
next
  have eq: "map (\<lambda>(p, h). (lastBackslashSegment p, h)) precomputed
      = map (\<lambda>(p, h). (fileNameOf p, h)) precomputed"
    using assms by (auto simp: fileNameOf_backslash_path)
  have "map_of (simplifiedPrecomputed precomputed)
         = map_of (rev (map (\<lambda>(p, h). (lastBackslashSegment p, h)) precomputed))"
    using map_of_simplify_step [of "[]" precomputed] by (simp add: simplifiedPrecomputed_def)
  then show "map_of (simplifiedPrecomputed precomputed)
         = map_of (rev (map (\<lambda>(p, h). (fileNameOf p, h)) precomputed))"
    by (simp only: eq)
next
  assume "\<forall>(f, h) \<in> set (simplifiedPrecomputed precomputed).
            h \<noteq> [] \<and> map_of live f = Some h"
  then show "verifyHashes precomputed live
            = map (\<lambda>(f, h). ReadLiveHash f) (simplifiedPrecomputed precomputed) @ [LogAllMatch]"
    unfolding verifyHashes_def by (rule verifyLoop_all_match)
next
  fix xs f h ys
  assume a: "simplifiedPrecomputed precomputed = xs @ (f, h) # ys
          \<and> (\<forall>(f', h') \<in> set xs. h' \<noteq> [] \<and> map_of live f' = Some h')
          \<and> (h = [] \<or> map_of live f \<noteq> Some h)"
  then have "verifyLoop live (xs @ (f, h) # ys)
       = map (\<lambda>(f, h). ReadLiveHash f) xs @ [ReadLiveHash f, WarnMismatch f, ShowTamperOverlay]"
    by (intro verifyLoop_first_mismatch) blast+
  then show "verifyHashes precomputed live
            = map (\<lambda>(f, h). ReadLiveHash f) xs
              @ [ReadLiveHash f, WarnMismatch f, ShowTamperOverlay]"
    using a by (simp add: verifyHashes_def)
qed

theorem verifyHashes_blocks_on_first_mismatch_witness:
  "list_all (\<lambda>(p, h). CHR ''/'' \<notin> set p) windowsPrecomputed
   \<and> simplifiedPrecomputed windowsPrecomputed = [(''file1.js'', ''aa''), (''file4.js'', ''bb'')]
   \<and> verifyHashes windowsPrecomputed [(''file1.js'', ''aa''), (''file4.js'', ''cc'')]
      = [ReadLiveHash ''file1.js'', ReadLiveHash ''file4.js'', WarnMismatch ''file4.js'',
         ShowTamperOverlay]
   \<and> verifyHashes windowsPrecomputed [(''file1.js'', ''aa''), (''file4.js'', ''bb'')]
      = [ReadLiveHash ''file1.js'', ReadLiveHash ''file4.js'', LogAllMatch]"
proof -
  have ne: "\<forall>(p, h) \<in> set windowsPrecomputed. CHR ''/'' \<notin> set p"
    by (simp add: windowsPrecomputed_def)
  have S: "simplifiedPrecomputed windowsPrecomputed
             = [(''file1.js'', ''aa''), (''file4.js'', ''bb'')]"
    by (simp add: windowsPrecomputed_def simplifiedPrecomputed_def lastBackslashSegment_def)
  note t = verifyHashes_blocks_on_first_mismatch [OF ne]
  have bad: "verifyHashes windowsPrecomputed [(''file1.js'', ''aa''), (''file4.js'', ''cc'')]
      = map (\<lambda>(f, h). ReadLiveHash f) [(''file1.js'', ''aa'')]
        @ [ReadLiveHash ''file4.js'', WarnMismatch ''file4.js'', ShowTamperOverlay]"
    by (rule t [THEN conjunct2, THEN conjunct2, THEN conjunct2, rule_format,
          where xs = "[(''file1.js'', ''aa'')]" and f = "''file4.js''" and h = "''bb''"
            and ys = "[]"])
       (simp add: S)
  have good: "verifyHashes windowsPrecomputed [(''file1.js'', ''aa''), (''file4.js'', ''bb'')]
      = map (\<lambda>(f, h). ReadLiveHash f) (simplifiedPrecomputed windowsPrecomputed)
        @ [LogAllMatch]"
    by (rule t [THEN conjunct2, THEN conjunct2, THEN conjunct1, THEN mp]) (simp add: S)
  show ?thesis
    unfolding bad good S using ne by (simp add: list_all_iff)
qed

text \<open>
  C2 (as stated) fails at two inputs. (1) Two full paths with the same bare name
  \<open>file1.js\<close> and different hashes: the table keyed by bare name keeps the second hash
  only, so with that hash in the live table the first entry, whose hash differs from
  the live one, is never compared, and success is logged after one read. (2) An entry
  whose expected hash is the empty string, with the same empty string in the live
  table: the entry matches, and the overlay is inserted, because an empty expected hash
  is falsy.
\<close>

theorem verifyHashes_counterexample:
  "fileNameOf (fst (collidingPrecomputed ! 0)) = ''file1.js''
   \<and> snd (collidingPrecomputed ! 0) = ''aa''
   \<and> map_of [(''file1.js'', ''bb'')] ''file1.js'' \<noteq> Some ''aa''
   \<and> verifyHashes collidingPrecomputed [(''file1.js'', ''bb'')]
      = [ReadLiveHash ''file1.js'', LogAllMatch]
   \<and> verifyHashes [(''C:'' @ [CHR 0x5C] @ ''site'' @ [CHR 0x5C] @ ''file1.js'', [])]
        [(''file1.js'', [])]
      = [ReadLiveHash ''file1.js'', WarnMismatch ''file1.js'', ShowTamperOverlay]"
  by (simp add: collidingPrecomputed_def fileNameOf_def isSeparator_def verifyHashes_def
      simplifiedPrecomputed_def lastBackslashSegment_def)

section \<open>Bare file names\<close>

text \<open>
  C8 (as the code has it). For a full path written with forward slashes the router's
  \<open>split(/[\\/]/).pop()\<close> gives the bare file name, but the verifier's
  \<open>split('\\').pop()\<close> gives the whole path: the precomputed entry is then looked up in
  the live table under the full path, is not found, and the page is blocked although the
  live hash of \<open>file1.js\<close> is the expected one.
\<close>

theorem verifier_keeps_forward_slash_path:
  "fileNameOf ''/srv/site/recompiled/file1.js'' = ''file1.js''
   \<and> simplifiedPrecomputed
        [(''/srv/site/recompiled/file1.js'',
          ''2422855eb99b1e77454695ad52a48be879c3b8d8eb42f7864361cfbe92fae89a'')]
      = [(''/srv/site/recompiled/file1.js'',
          ''2422855eb99b1e77454695ad52a48be879c3b8d8eb42f7864361cfbe92fae89a'')]
   \<and> verifyHashes
        [(''/srv/site/recompiled/file1.js'',
          ''2422855eb99b1e77454695ad52a48be879c3b8d8eb42f7864361cfbe92fae89a'')]
        [(''file1.js'', ''2422855eb99b1e77454695ad52a48be879c3b8d8eb42f7864361cfbe92fae89a'')]
      = [ReadLiveHash ''/srv/site/recompiled/file1.js'',
         WarnMismatch ''/srv/site/recompiled/file1.js'', ShowTamperOverlay]"
  by (simp add: fileNameOf_def isSeparator_def verifyHashes_def simplifiedPrecomputed_def
      lastBackslashSegment_def)




section \<open>The startup wait\<close>

lemma check_skip:
  assumes "\<forall>j. k \<le> j \<and> j < K \<longrightarrow> liveAt j = [] \<and> elapsedAt j < timeout" and "k \<le> K"
  shows "check liveAt elapsedAt timeout k = check liveAt elapsedAt timeout K"
  using assms
proof (induction "K - k" arbitrary: k)
  case 0
  then show ?case by simp
next
  case (Suc d)
  then have k: "k < K" by simp
  then have here: "liveAt k = []" "elapsedAt k < timeout"
    using Suc.prems by auto
  have "check liveAt elapsedAt timeout k = check liveAt elapsedAt timeout (Suc k)"
    by (subst check.simps) (use here in simp)
  also have "\<dots> = check liveAt elapsedAt timeout K"
    by (rule Suc.hyps(1)) (use Suc.hyps(2) Suc.prems k in auto)
  finally show ?case .
qed

text \<open>
  C6. If the clock reading reaches 5000 ms at some run of \<open>check\<close>, the wait settles at
  a run k: either the live table is non-empty there, every earlier run saw an empty table
  before the timeout, and \<open>verifyHashes\<close> runs on the table; or the table is still empty
  with the timeout elapsed, and the overlay is shown. In both cases what the page does
  ends with the success log of a completed verification or with the overlay.
\<close>

theorem wait_settles_fail_closed:
  assumes "\<exists>k. 5000 \<le> elapsedAt k"
  shows "\<exists>k. (\<forall>j < k. liveAt j = [] \<and> elapsedAt j < 5000)
     \<and> ((liveAt k \<noteq> []
          \<and> check liveAt elapsedAt 5000 0 = Some (Resolved k)
          \<and> startup precomputed liveAt elapsedAt = Some (verifyHashes precomputed (liveAt k)))
        \<or> (liveAt k = [] \<and> 5000 \<le> elapsedAt k
          \<and> check liveAt elapsedAt 5000 0 = Some (Rejected k)
          \<and> startup precomputed liveAt elapsedAt = Some [ErrTimeout, ShowTamperOverlay]))"
proof -
  define P where "P k \<longleftrightarrow> liveAt k \<noteq> [] \<or> 5000 \<le> elapsedAt k" for k
  have ex: "\<exists>k. P k" using assms by (auto simp: P_def)
  define K where "K = (LEAST k. P k)"
  have PK: "P K" unfolding K_def using ex by (auto intro: LeastI_ex)
  have before: "\<forall>j < K. liveAt j = [] \<and> elapsedAt j < 5000"
  proof (intro allI impI)
    fix j assume "j < K"
    then have "\<not> P j" unfolding K_def by (rule not_less_Least)
    then show "liveAt j = [] \<and> elapsedAt j < 5000" by (auto simp: P_def)
  qed
  have skip: "check liveAt elapsedAt 5000 0 = check liveAt elapsedAt 5000 K"
    by (rule check_skip) (use before in auto)
  show ?thesis
  proof (cases "liveAt K = []")
    case True
    then have late: "5000 \<le> elapsedAt K" using PK by (simp add: P_def)
    have "check liveAt elapsedAt 5000 K = Some (Rejected K)"
      by (subst check.simps) (use True late in simp)
    then have "check liveAt elapsedAt 5000 0 = Some (Rejected K)" using skip by simp
    then show ?thesis using True late before by (auto simp: startup_def)
  next
    case False
    have "check liveAt elapsedAt 5000 K = Some (Resolved K)"
      by (subst check.simps) (use False in simp)
    then have "check liveAt elapsedAt 5000 0 = Some (Resolved K)" using skip by simp
    then show ?thesis using False before by (auto simp: startup_def)
  qed
qed

theorem wait_settles_fail_closed_witness:
  "(\<exists>k. 5000 \<le> (\<lambda>k. 100 * int k) k)
   \<and> (\<exists>k. (\<forall>j < k. (\<lambda>k. if k < 3 then [] else [(''file1.js'', ''aa'')]) j = []
               \<and> (\<lambda>k. 100 * int k) j < 5000)
     \<and> (((\<lambda>k. if k < 3 then [] else [(''file1.js'', ''aa'')]) k \<noteq> []
          \<and> check (\<lambda>k. if k < 3 then [] else [(''file1.js'', ''aa'')]) (\<lambda>k. 100 * int k) 5000 0
              = Some (Resolved k)
          \<and> startup windowsPrecomputed (\<lambda>k. if k < 3 then [] else [(''file1.js'', ''aa'')])
                (\<lambda>k. 100 * int k)
              = Some (verifyHashes windowsPrecomputed
                        ((\<lambda>k. if k < 3 then [] else [(''file1.js'', ''aa'')]) k)))
        \<or> ((\<lambda>k. if k < 3 then [] else [(''file1.js'', ''aa'')]) k = []
          \<and> 5000 \<le> (\<lambda>k. 100 * int k) k
          \<and> check (\<lambda>k. if k < 3 then [] else [(''file1.js'', ''aa'')]) (\<lambda>k. 100 * int k) 5000 0
              = Some (Rejected k)
          \<and> startup windowsPrecomputed (\<lambda>k. if k < 3 then [] else [(''file1.js'', ''aa'')])
                (\<lambda>k. 100 * int k)
              = Some [ErrTimeout, ShowTamperOverlay])))
   \<and> startup windowsPrecomputed (\<lambda>k. if k < 3 then [] else [(''file1.js'', ''aa'')])
        (\<lambda>k. 100 * int k)
      = Some [ReadLiveHash ''file1.js'', ReadLiveHash ''file4.js'', WarnMismatch ''file4.js'',
              ShowTamperOverlay]
   \<and> startup windowsPrecomputed (\<lambda>k. []) (\<lambda>k. 100 * int k)
      = Some [ErrTimeout, ShowTamperOverlay]"
proof -
  have h: "\<exists>k. 5000 \<le> (\<lambda>k. 100 * int k) k"
    by (rule exI [of _ 50]) simp
  have S: "simplifiedPrecomputed windowsPrecomputed
             = [(''file1.js'', ''aa''), (''file4.js'', ''bb'')]"
    by (simp add: windowsPrecomputed_def simplifiedPrecomputed_def lastBackslashSegment_def)
  have c: "check (\<lambda>k. if k < 3 then [] else [(''file1.js'', ''aa'')]) (\<lambda>k. 100 * int k) 5000 0
             = Some (Resolved 3)"
    by (simp add: check.simps)
  have r: "startup windowsPrecomputed (\<lambda>k. if k < 3 then [] else [(''file1.js'', ''aa'')])
        (\<lambda>k. 100 * int k)
      = Some [ReadLiveHash ''file1.js'', ReadLiveHash ''file4.js'', WarnMismatch ''file4.js'',
              ShowTamperOverlay]"
    by (simp add: startup_def c verifyHashes_def S)
  have "check (\<lambda>k. []) (\<lambda>k. 100 * int k) 5000 0 = check (\<lambda>k. []) (\<lambda>k. 100 * int k) 5000 50"
    by (rule check_skip) auto
  also have "\<dots> = Some (Rejected 50)"
    by (subst check.simps) simp
  finally have t: "startup windowsPrecomputed (\<lambda>k. []) (\<lambda>k. 100 * int k)
      = Some [ErrTimeout, ShowTamperOverlay]"
    by (simp add: startup_def)
  show ?thesis
    using h wait_settles_fail_closed [OF h, of "\<lambda>k. if k < 3 then [] else [(''file1.js'', ''aa'')]"
        windowsPrecomputed] r t
    by blast
qed

section \<open>processFile: termination on every project\<close>

lemma finite_contentFiles: "finite (contentFiles a)"
  by (simp add: contentFiles_def)

lemma map_of_contentFiles: "map_of (fileContents a) f = Some c \<Longrightarrow> f \<in> contentFiles a"
  by (auto simp: contentFiles_def dest: map_of_SomeD intro: rev_image_eqI)

lemma card_unvisited_insert:
  assumes "f \<in> contentFiles a" "f \<notin> visited"
  shows "card (contentFiles a - insert f visited) < card (contentFiles a - visited)"
proof -
  have "contentFiles a - insert f visited \<subset> contentFiles a - visited"
    using assms by auto
  then show ?thesis
    by (intro psubset_card_mono) (simp_all add: finite_contentFiles)
qed

lemma heights_obj_set: "heights (obj_set deps f child) \<le> max (heights deps) (height child)"
  by (induction deps) (auto split: if_splits)

lemma processFile_returns_aux:
  "(card (contentFiles a - visited) < n \<longrightarrow>
      (\<exists>r. processFile n a fl visited = Some r
           \<and> (\<forall>t. r = Some t \<longrightarrow> height t \<le> card (contentFiles a - visited))))"
  "(card (contentFiles a - visited') < n \<longrightarrow> heights deps \<le> card (contentFiles a - visited') \<longrightarrow>
      (\<exists>r. processDependents n a fl' visited' cands deps = Some r
           \<and> heights r \<le> card (contentFiles a - visited')))"
proof (induction n a fl visited and n a fl' visited' cands deps
    rule: processFile_processDependents.induct)
  case (1 a fl visited)
  then show ?case by simp
next
  case (2 n a fl visited)
  show ?case
  proof (intro impI)
    assume fuel: "card (contentFiles a - visited) < Suc n"
    show "\<exists>r. processFile (Suc n) a fl visited = Some r
           \<and> (\<forall>t. r = Some t \<longrightarrow> height t \<le> card (contentFiles a - visited))"
    proof (cases "fl \<in> visited")
      case True
      then show ?thesis by simp
    next
      case False
      show ?thesis
      proof (cases "map_of (fileContents a) fl")
        case None
        then show ?thesis using False by simp
      next
        case (Some content)
        have less: "card (contentFiles a - insert fl visited) < card (contentFiles a - visited)"
          using Some False by (intro card_unvisited_insert map_of_contentFiles)
        then have "card (contentFiles a - insert fl visited) < n"
          using fuel by simp
        moreover have "heights [] \<le> card (contentFiles a - insert fl visited)"
          by simp
        ultimately obtain r where
          r: "processDependents n a fl (insert fl visited) (dependentFiles a content) [] = Some r"
            "heights r \<le> card (contentFiles a - insert fl visited)"
          using "2.IH" [OF False Some] by blast
        then show ?thesis using False Some less by simp
      qed
    qed
  qed
next
  case (3 n a fl visited deps)
  then show ?case by simp
next
  case (4 n a fl visited dependentFile others deps)
  show ?case
  proof (intro impI)
    assume fuel: "card (contentFiles a - visited) < n"
      and h: "heights deps \<le> card (contentFiles a - visited)"
    show "\<exists>r. processDependents n a fl visited (dependentFile # others) deps = Some r
           \<and> heights r \<le> card (contentFiles a - visited)"
    proof (cases "dependentFile \<noteq> fl \<and> dependentFile \<notin> visited")
      case False
      then show ?thesis using "4.IH"(4) fuel h by auto
    next
      case True
      obtain c where c: "processFile n a dependentFile visited = Some c"
        "\<forall>t. c = Some t \<longrightarrow> height t \<le> card (contentFiles a - visited)"
        using "4.IH"(1) [OF True] fuel by blast
      show ?thesis
      proof (cases c)
        case None
        then show ?thesis using "4.IH"(2) [OF True] c True fuel h by auto
      next
        case (Some child)
        have "heights (obj_set deps dependentFile child) \<le> card (contentFiles a - visited)"
          using heights_obj_set [of deps dependentFile child] h c(2) Some by simp
        then show ?thesis using "4.IH"(3) [OF True] c(1) Some True fuel by auto
      qed
    qed
  qed
qed

lemma cycle_rd: "isRouterDependant cycleContentA" "\<not> isRouterDependant cycleContentB"
  by (simp_all add: isRouterDependant_def cycleContentA_def cycleContentB_def)

lemma cycle_neq: "cycleContentB \<noteq> cycleContentA"
  by (simp add: cycleContentA_def cycleContentB_def)

lemma cycle_deps:
  "dependentFiles cycleProject cycleContentA = [''/srv/site/b.js'']"
  "dependentFiles cycleProject cycleContentB = [''/srv/site/a.js'']"
  by (simp_all add: dependentFiles_def routerCallFiles_def calledFunctionFiles_def cycleProject_def
      cycle_neq List.map_filter_simps)

lemma cycle_trees:
  "processFile 3 cycleProject ''/srv/site/a.js'' {}
     = Some (Some (Node True [(''/srv/site/b.js'', Node False [])]))"
  "processFile 3 cycleProject ''/srv/site/b.js'' {}
     = Some (Some (Node False [(''/srv/site/a.js'', Node True [])]))"
proof -
  have fc: "fileContents cycleProject
      = [(''/srv/site/a.js'', cycleContentA), (''/srv/site/b.js'', cycleContentB)]"
    by (simp add: cycleProject_def)
  have three: "(3::nat) = Suc (Suc (Suc 0))" by simp
  show "processFile 3 cycleProject ''/srv/site/a.js'' {}
     = Some (Some (Node True [(''/srv/site/b.js'', Node False [])]))"
    unfolding three by (simp add: fc cycle_deps cycle_rd)
  show "processFile 3 cycleProject ''/srv/site/b.js'' {}
     = Some (Some (Node False [(''/srv/site/a.js'', Node True [])]))"
    unfolding three by (simp add: fc cycle_deps cycle_rd)
qed

text \<open>
  C9. For every project, cyclic or not, \<open>processFile\<close> on any file with a fresh visited
  set returns within a call stack of depth at most the number of files plus one, and the
  tree it returns is no deeper than the number of files, which bounds the recursion of
  the run-time traversal \<open>collectDeps\<close> over it.
\<close>

theorem cycle_termination:
  "\<exists>r. processFile (Suc (length (fileContents a))) a fl {} = Some r
        \<and> (\<forall>t. r = Some t \<longrightarrow> height t \<le> length (fileContents a))"
proof -
  have "card (contentFiles a - {}) \<le> length (fileContents a)"
    unfolding contentFiles_def by (simp add: card_image_le [THEN le_trans] card_length)
  then show ?thesis
    using processFile_returns_aux(1) [of a "{}" "Suc (length (fileContents a))" fl]
    by (auto simp: less_Suc_eq_le)
qed

theorem cycle_termination_witness:
  "processFile (Suc (length (fileContents cycleProject))) cycleProject ''/srv/site/a.js'' {}
     = Some (Some (Node True [(''/srv/site/b.js'', Node False [])]))
   \<and> height (Node True [(''/srv/site/b.js'', Node False [])]) = 2
   \<and> length (fileContents cycleProject) = 2
   \<and> collectDeps [(''/srv/site/b.js'', Node False [])] ([], {})
       = ([''/srv/site/b.js''], {''/srv/site/b.js''})"
proof -
  have len: "length (fileContents cycleProject) = 2"
    by (simp add: cycleProject_def)
  have three: "Suc 2 = 3" by simp
  show ?thesis
    using cycle_termination [of cycleProject "''/srv/site/a.js''"]
    unfolding len three by (simp add: cycle_trees)
qed

section \<open>Hex strings: writing and reading back\<close>

lemma of_char_hexDigit:
  "n < 16 \<Longrightarrow> (of_char (hexDigit n) :: nat) = (if n < 10 then 48 + n else 87 + n)"
  by (simp add: hexDigit_def)

lemma hexDigitVal_hexDigit: "n < 16 \<Longrightarrow> hexDigitVal (hexDigit n) = Some n"
  by (auto simp: hexDigitVal_def of_char_hexDigit Let_def)

lemma hexDigit_plain:
  assumes "n < 16"
  shows "\<not> isWhiteSpace (hexDigit n)" "hexDigit n \<noteq> CHR ''-''" "hexDigit n \<noteq> CHR ''+''"
proof -
  show "\<not> isWhiteSpace (hexDigit n)"
    using assms by (auto simp: isWhiteSpace_def of_char_hexDigit split: if_splits)
  have "(of_char (hexDigit n) :: nat) \<noteq> of_char CHR ''-''"
    using assms by (simp add: of_char_hexDigit)
  then show "hexDigit n \<noteq> CHR ''-''" by auto
  have "(of_char (hexDigit n) :: nat) \<noteq> of_char CHR ''+''"
    using assms by (simp add: of_char_hexDigit)
  then show "hexDigit n \<noteq> CHR ''+''" by auto
qed

lemma parseInt16_hexDigits:
  "x < 16 \<Longrightarrow> y < 16 \<Longrightarrow> parseInt16 (hexDigit x) (hexDigit y) = Some (int (16 * x + y))"
  by (simp add: parseInt16_def hexDigitVal_hexDigit hexDigit_plain)

lemma hexDigit_0: "hexDigit 0 = CHR ''0''"
  by code_simp

lemma hex_of_byte:
  "slice_last2 (CHR ''0'' # CHR ''0'' # toString16 b)
     = [hexDigit (unat b div 16), hexDigit (unat b mod 16)]"
  by (simp add: slice_last2_def toString16_def hexDigit_0)

lemma byte_roundtrip:
  "toUint8 (parseInt16 (hexDigit (unat b div 16)) (hexDigit (unat b mod 16))) = (b :: byte)"
proof -
  have "unat b < 256" using unsigned_less [of b, where 'a = nat] by simp
  then have "unat b div 16 < 16" by simp
  then have "parseInt16 (hexDigit (unat b div 16)) (hexDigit (unat b mod 16))
      = Some (int (16 * (unat b div 16) + unat b mod 16))"
    by (simp add: parseInt16_hexDigits)
  also have "16 * (unat b div 16) + unat b mod 16 = unat b" by simp
  finally show ?thesis by (simp add: toUint8_def)
qed

lemma hexPairs_roundtrip: "hexPairs (uint8ArrayToHexString bs) = bs"
  by (induction bs) (simp_all add: uint8ArrayToHexString_def hex_of_byte byte_roundtrip)

lemma length_uint8ArrayToHexString: "length (uint8ArrayToHexString bs) = 2 * length bs"
  by (induction bs) (simp_all add: uint8ArrayToHexString_def hex_of_byte)

lemma hexString_roundtrip: "hexStringToUint8Array (uint8ArrayToHexString bs) = Inr bs"
  by (simp add: hexStringToUint8Array_def length_uint8ArrayToHexString hexPairs_roundtrip)

section \<open>collectHashesFromDependencies as a depth-first visit\<close>

lemma visitedAfter_mono: "visited \<subseteq> visitedAfter ds visited"
proof (induction ds visited rule: visitedAfter.induct)
  case (1 visited)
  then show ?case by simp
next
  case (2 d rd ds rest visited)
  show ?case
  proof (cases "d \<in> visited")
    case True
    then show ?thesis using 2 by simp
  next
    case False
    have "visited \<subseteq> insert d visited" by auto
    also have "\<dots> \<subseteq> visitedAfter ds (insert d visited)" using 2(2) [OF False] .
    also have "\<dots> \<subseteq> visitedAfter rest (visitedAfter ds (insert d visited))" using 2(3) [OF False] .
    finally show ?thesis using False by simp
  qed
qed

lemma visitedAfter_upper: "visitedAfter ds visited \<subseteq> visited \<union> treeFiles ds"
proof (induction ds visited rule: visitedAfter.induct)
  case (1 visited)
  then show ?case by simp
next
  case (2 d rd ds rest visited)
  show ?case
  proof (cases "d \<in> visited")
    case True
    then show ?thesis using 2(1) by auto
  next
    case False
    then show ?thesis using 2(2) [OF False] 2(3) [OF False] by auto
  qed
qed

lemma visitedAfter_roots: "fst ` set ds \<subseteq> visitedAfter ds visited"
proof (induction ds visited rule: visitedAfter.induct)
  case (1 visited)
  then show ?case by simp
next
  case (2 d rd ds rest visited)
  show ?case
  proof (cases "d \<in> visited")
    case True
    then show ?thesis using 2(1) visitedAfter_mono [of visited rest] by auto
  next
    case False
    have "d \<in> visitedAfter rest (visitedAfter ds (insert d visited))"
      using visitedAfter_mono [of "insert d visited" ds]
        visitedAfter_mono [of "visitedAfter ds (insert d visited)" rest] by auto
    then show ?thesis using False 2(3) [OF False] by auto
  qed
qed

lemma keys_ownHash: "fst ` set (ownHash sha contents d rd) \<subseteq> {d}"
  by (auto simp: ownHash_def split: option.splits if_splits)

lemma distinct_ownHash: "distinct (map fst (ownHash sha contents d rd))"
  by (auto simp: ownHash_def split: option.splits)

lemma hashesAfter_keys:
  "fst ` set (hashesAfter sha contents ds visited) \<subseteq> visitedAfter ds visited - visited"
proof (induction sha contents ds visited rule: hashesAfter.induct)
  case (1 sha contents visited)
  then show ?case by simp
next
  case (2 sha contents d rd ds rest visited)
  show ?case
  proof (cases "d \<in> visited")
    case True
    then show ?thesis using 2(1) by simp
  next
    case False
    let ?v1 = "insert d visited" and ?v2 = "visitedAfter ds (insert d visited)"
    let ?v3 = "visitedAfter rest (visitedAfter ds (insert d visited))"
    have m: "?v1 \<subseteq> ?v2" "?v2 \<subseteq> ?v3" by (rule visitedAfter_mono)+
    have a: "fst ` set (ownHash sha contents d rd) \<subseteq> ?v3 - visited"
      using keys_ownHash [of sha contents d rd] m False by auto
    have b: "fst ` set (hashesAfter sha contents ds ?v1) \<subseteq> ?v3 - visited"
      using 2(2) [OF False] m by auto
    have c: "fst ` set (hashesAfter sha contents rest ?v2) \<subseteq> ?v3 - visited"
      using 2(3) [OF False] m by auto
    show ?thesis using False a b c by (simp add: image_Un)
  qed
qed

lemma hashesAfter_distinct: "distinct (map fst (hashesAfter sha contents ds visited))"
proof (induction sha contents ds visited rule: hashesAfter.induct)
  case (1 sha contents visited)
  then show ?case by simp
next
  case (2 sha contents d rd ds rest visited)
  show ?case
  proof (cases "d \<in> visited")
    case True
    then show ?thesis using 2(1) by simp
  next
    case False
    let ?v1 = "insert d visited" and ?v2 = "visitedAfter ds (insert d visited)"
    have own: "fst ` set (ownHash sha contents d rd) \<subseteq> {d}" by (rule keys_ownHash)
    have sub: "fst ` set (hashesAfter sha contents ds ?v1) \<subseteq> ?v2 - ?v1"
      by (rule hashesAfter_keys)
    have rest: "fst ` set (hashesAfter sha contents rest ?v2)
        \<subseteq> visitedAfter rest ?v2 - ?v2" by (rule hashesAfter_keys)
    have "?v1 \<subseteq> ?v2" by (rule visitedAfter_mono)
    then have disj:
      "fst ` set (ownHash sha contents d rd) \<inter> fst ` set (hashesAfter sha contents ds ?v1) = {}"
      "fst ` set (ownHash sha contents d rd) \<inter> fst ` set (hashesAfter sha contents rest ?v2) = {}"
      "fst ` set (hashesAfter sha contents ds ?v1) \<inter> fst ` set (hashesAfter sha contents rest ?v2) = {}"
      using own sub rest by blast+
    show ?thesis
      using False 2(2) [OF False] 2(3) [OF False] distinct_ownHash [of sha contents d rd] disj
      by (simp add: Int_Un_distrib)
  qed
qed

lemma obj_set_new: "k \<notin> fst ` set kvs \<Longrightarrow> obj_set kvs k v = kvs @ [(k, v)]"
  by (induction kvs) auto

lemma foldl_obj_set_new:
  "distinct (map fst new) \<Longrightarrow> fst ` set new \<inter> fst ` set kvs = {} \<Longrightarrow>
     foldl (\<lambda>c (k, v). obj_set c k v) kvs new = kvs @ new"
proof (induction new arbitrary: kvs)
  case Nil
  then show ?case by simp
next
  case (Cons x new)
  obtain k v where x: "x = (k, v)" by (cases x)
  have k: "k \<notin> fst ` set kvs" using Cons.prems(2) by (auto simp: x)
  have "foldl (\<lambda>c (k, v). obj_set c k v) (kvs @ [(k, v)]) new = (kvs @ [(k, v)]) @ new"
    by (rule Cons.IH) (use Cons.prems in \<open>auto simp: x\<close>)
  then show ?case by (simp add: x obj_set_new [OF k])
qed

lemma hash_parses:
  "\<forall>c. length (sha c) = 64 \<Longrightarrow> hexStringToUint8Array (sha c) = Inr (hexPairs (sha c))"
  by (simp add: hexStringToUint8Array_def)

lemma own_step:
  assumes "\<forall>c. length (sha c) = 64" and "d \<notin> fst ` set collected"
  shows "(if \<not> rd then
            (case map_of contents d of
               None \<Rightarrow> Inr collected
             | Some content \<Rightarrow>
                 if content = [] then Inr collected
                 else (case hexStringToUint8Array (sha content) of
                         Inl e \<Rightarrow> Inl e
                       | Inr hashUint8 \<Rightarrow> Inr (obj_set collected d hashUint8)))
          else Inr collected)
         = (Inr (collected @ ownHash sha contents d rd) :: exn + (string \<times> byte list) list)"
  using assms
  by (simp add: ownHash_def hash_parses obj_set_new split: option.splits)

lemma collectHashesLoop_eq:
  assumes sha: "\<forall>c. length (sha c) = 64"
  shows "fst ` set collected \<subseteq> visited \<longrightarrow>
    collectHashesLoop sha contents ds collected visited
      = Inr (collected @ hashesAfter sha contents ds visited, visitedAfter ds visited)"
  using sha
proof (induction sha contents ds collected visited rule: collectHashesLoop.induct)
  case (1 sha contents collected visited)
  then show ?case by simp
next
  case (2 sha contents d rd ds rest collected visited)
  note sha = "2.prems"
  show ?case
  proof (intro impI)
    assume keys: "fst ` set collected \<subseteq> visited"
    show "collectHashesLoop sha contents ((d, Node rd ds) # rest) collected visited
      = Inr (collected @ hashesAfter sha contents ((d, Node rd ds) # rest) visited,
             visitedAfter ((d, Node rd ds) # rest) visited)"
    proof (cases "d \<in> visited")
      case True
      then show ?thesis using "2.IH"(1) [OF True sha] keys by simp
    next
      case False
      let ?v1 = "insert d visited" and ?v2 = "visitedAfter ds (insert d visited)"
      let ?c1 = "collected @ ownHash sha contents d rd"
      let ?sub = "hashesAfter sha contents ds ?v1"
      have fresh: "d \<notin> fst ` set collected" using keys False by auto
      note own = own_step [OF sha fresh, of rd contents]
      have subcall: "collectHashesLoop sha contents ds [] ?v1 = Inr (?sub, ?v2)"
        using "2.IH"(2) [OF False own sha] by simp
      have k1: "fst ` set ?c1 \<subseteq> ?v1"
        using keys keys_ownHash [of sha contents d rd] by (auto simp: image_Un)
      have ksub: "fst ` set ?sub \<subseteq> ?v2 - ?v1" by (rule hashesAfter_keys)
      have "fst ` set ?sub \<inter> fst ` set ?c1 = {}" using k1 ksub by blast
      then have merge: "foldl (\<lambda>c (k, v). obj_set c k v) ?c1 ?sub = ?c1 @ ?sub"
        by (intro foldl_obj_set_new hashesAfter_distinct)
      have k2: "fst ` set (?c1 @ ?sub) \<subseteq> ?v2"
        using k1 ksub visitedAfter_mono [of ?v1 ds] by (auto simp: image_Un)
      have "fst ` set (foldl (\<lambda>c (k, v). obj_set c k v) ?c1 ?sub) \<subseteq> ?v2 \<longrightarrow>
          collectHashesLoop sha contents rest (foldl (\<lambda>c (k, v). obj_set c k v) ?c1 ?sub) ?v2
          = Inr (foldl (\<lambda>c (k, v). obj_set c k v) ?c1 ?sub @ hashesAfter sha contents rest ?v2,
                 visitedAfter rest ?v2)"
        by (rule "2.IH"(3) [OF False own subcall refl sha])
      then have restcall: "collectHashesLoop sha contents rest (?c1 @ ?sub) ?v2
          = Inr ((?c1 @ ?sub) @ hashesAfter sha contents rest ?v2, visitedAfter rest ?v2)"
        unfolding merge using k2 by blast
      have "collectHashesLoop sha contents ((d, Node rd ds) # rest) collected visited
          = collectHashesLoop sha contents rest (foldl (\<lambda>c (k, v). obj_set c k v) ?c1 ?sub) ?v2"
        by (subst collectHashesLoop.simps) (simp only: False if_False own subcall sum.case prod.case)
      also have "\<dots> = Inr ((?c1 @ ?sub) @ hashesAfter sha contents rest ?v2, visitedAfter rest ?v2)"
        unfolding merge by (rule restcall)
      also have "(?c1 @ ?sub) @ hashesAfter sha contents rest ?v2
          = collected @ hashesAfter sha contents ((d, Node rd ds) # rest) visited"
        using False by simp
      also have "visitedAfter rest ?v2 = visitedAfter ((d, Node rd ds) # rest) visited"
        using False by simp
      finally show ?thesis .
    qed
  qed
qed

section \<open>The branch files of routerForwardCall\<close>

lemma collectDeps_sets:
  "snd st = set (fst st) \<Longrightarrow>
     snd (collectDeps ds st) = set (fst (collectDeps ds st))
     \<and> set (fst (collectDeps ds st)) = set (fst st) \<union> nonRouterFiles ds
     \<and> (distinct (fst st) \<longrightarrow> distinct (fst (collectDeps ds st)))"
proof (induction ds st rule: collectDeps.induct)
  case (1 st)
  then show ?case by simp
next
  case (2 dep rd ds rest branchFiles visited)
  define st1 where "st1 = (if \<not> rd \<and> dep \<notin> visited
      then (branchFiles @ [dep], insert dep visited) else (branchFiles, visited))"
  define st2 where "st2 = collectDeps ds st1"
  have v: "visited = set branchFiles" using "2.prems" by simp
  have s1: "snd st1 = set (fst st1)"
    "set (fst st1) = set branchFiles \<union> (if rd then {} else {dep})"
    "distinct branchFiles \<longrightarrow> distinct (fst st1)"
    using v by (auto simp: st1_def)
  have ih1: "snd st2 = set (fst st2) \<and> set (fst st2) = set (fst st1) \<union> nonRouterFiles ds
      \<and> (distinct (fst st1) \<longrightarrow> distinct (fst st2))"
    unfolding st2_def by (rule "2.IH"(1) [OF st1_def s1(1)])
  have ih2: "snd (collectDeps rest st2) = set (fst (collectDeps rest st2))
      \<and> set (fst (collectDeps rest st2)) = set (fst st2) \<union> nonRouterFiles rest
      \<and> (distinct (fst st2) \<longrightarrow> distinct (fst (collectDeps rest st2)))"
    unfolding st2_def by (rule "2.IH"(2) [OF st1_def]) (use ih1 st2_def in simp)
  have eq: "collectDeps ((dep, Node rd ds) # rest) (branchFiles, visited) = collectDeps rest st2"
    by (simp add: st1_def st2_def)
  have nr: "nonRouterFiles ((dep, Node rd ds) # rest)
      = (if rd then {} else {dep}) \<union> nonRouterFiles ds \<union> nonRouterFiles rest"
    by simp
  show ?case
    unfolding eq nr using ih1 ih2 s1 by (simp add: Un_assoc)
qed

section \<open>Trees built by processFile\<close>

lemma not_contentFiles: "map_of (fileContents a) f = None \<longleftrightarrow> f \<notin> contentFiles a"
  by (simp add: contentFiles_def map_of_eq_None_iff)

lemma builtForest_obj_set:
  "builtForest a V deps \<Longrightarrow> builtForest a V [(d, child)] \<Longrightarrow>
     builtForest a V (obj_set deps d child)"
proof (induction deps)
  case Nil
  then show ?case by simp
next
  case (Cons x deps)
  obtain k rd ds where x: "x = (k, Node rd ds)" by (cases x, case_tac b) auto
  show ?case
  proof (cases "k = d")
    case True
    obtain rd' ds' where c: "child = Node rd' ds'" by (cases child)
    show ?thesis using Cons.prems True by (simp add: x c)
  next
    case False
    then show ?thesis using Cons by (simp add: x)
  qed
qed

lemma processFile_built_aux:
  "(\<forall>t. processFile n a fl visited = Some (Some t) \<longrightarrow> builtForest a visited [(fl, t)])
   \<and> (processFile n a fl visited = Some None \<longrightarrow> fl \<in> visited \<or> fl \<notin> contentFiles a)"
  "processDependents n a fl' visited' cands deps = Some r \<longrightarrow> fl' \<in> visited' \<longrightarrow>
     builtForest a visited' deps \<longrightarrow>
     builtForest a visited' r
     \<and> fst ` set r = fst ` set deps \<union> {e \<in> set cands. e \<notin> visited' \<and> e \<in> contentFiles a}"
proof (induction n a fl visited and n a fl' visited' cands deps arbitrary: and r
    rule: processFile_processDependents.induct)
  case (1 a fl visited)
  then show ?case by simp
next
  case (2 n a fl visited)
  show ?case
  proof (cases "fl \<in> visited")
    case True
    then show ?thesis by simp
  next
    case False
    show ?thesis
    proof (cases "map_of (fileContents a) fl")
      case None
      then have "fl \<notin> contentFiles a" by (simp add: not_contentFiles)
      then show ?thesis using False None by simp
    next
      case (Some content)
      show ?thesis
      proof (cases "processDependents n a fl (insert fl visited) (dependentFiles a content) []")
        case None
        then show ?thesis using False Some by simp
      next
        case (Some deps)
        have "builtForest a (insert fl visited) deps
          \<and> fst ` set deps = fst ` set ([] :: (string \<times> node) list)
              \<union> {e \<in> set (dependentFiles a content). e \<notin> insert fl visited \<and> e \<in> contentFiles a}"
          using "2.IH" [OF False \<open>map_of (fileContents a) fl = Some content\<close>, of deps] Some
          by simp
        then have "builtForest a (insert fl visited) deps"
          "fst ` set deps = dependentsOf a fl - insert fl visited"
          using \<open>map_of (fileContents a) fl = Some content\<close> by (auto simp: dependentsOf_def)
        then show ?thesis
          using False Some \<open>map_of (fileContents a) fl = Some content\<close> by simp
      qed
    qed
  qed
next
  case (3 n a fl visited deps)
  then show ?case by auto
next
  case (4 n a fl visited dependentFile others deps)
  show ?case
  proof (intro impI)
    assume run: "processDependents n a fl visited (dependentFile # others) deps = Some r"
      and fl: "fl \<in> visited" and built: "builtForest a visited deps"
    show "builtForest a visited r
     \<and> fst ` set r = fst ` set deps
         \<union> {e \<in> set (dependentFile # others). e \<notin> visited \<and> e \<in> contentFiles a}"
    proof (cases "dependentFile \<noteq> fl \<and> dependentFile \<notin> visited")
      case False
      then have skip: "dependentFile \<in> visited" using fl by auto
      have "processDependents n a fl visited others deps = Some r"
        using run False by simp
      then have "builtForest a visited r
        \<and> fst ` set r = fst ` set deps \<union> {e \<in> set others. e \<notin> visited \<and> e \<in> contentFiles a}"
        using "4.IH"(4) [OF False, of r] fl built by simp
      then show ?thesis using skip by auto
    next
      case True
      show ?thesis
      proof (cases "processFile n a dependentFile visited")
        case None
        then show ?thesis using run True by simp
      next
        case (Some c)
        show ?thesis
        proof (cases c)
          case None
          have no: "dependentFile \<notin> contentFiles a"
            using "4.IH"(1) [OF True] Some None True by simp
          have "processDependents n a fl visited others deps = Some r"
            using run True Some None by simp
          then have "builtForest a visited r
            \<and> fst ` set r = fst ` set deps \<union> {e \<in> set others. e \<notin> visited \<and> e \<in> contentFiles a}"
            using "4.IH"(2) [OF True Some None, of r] fl built by simp
          then show ?thesis using no by auto
        next
          case (Some child)
          have ch: "builtForest a visited [(dependentFile, child)]"
            using "4.IH"(1) [OF True] \<open>processFile n a dependentFile visited = Some c\<close> Some
            by simp
          obtain rd ds where child: "child = Node rd ds" by (cases child)
          have yes: "dependentFile \<in> contentFiles a"
            using ch by (auto simp: child intro: map_of_contentFiles)
          have b2: "builtForest a visited (obj_set deps dependentFile child)"
            using built ch by (rule builtForest_obj_set)
          have "processDependents n a fl visited others (obj_set deps dependentFile child) = Some r"
            using run True \<open>processFile n a dependentFile visited = Some c\<close> Some by simp
          then have "builtForest a visited r
            \<and> fst ` set r = fst ` set (obj_set deps dependentFile child)
                \<union> {e \<in> set others. e \<notin> visited \<and> e \<in> contentFiles a}"
            using "4.IH"(3) [OF True \<open>processFile n a dependentFile visited = Some c\<close> Some, of r]
              fl b2 by simp
          then show ?thesis using yes True by (auto simp: keys_obj_set)
        qed
      qed
    qed
  qed
qed

lemma visitedAfter_closed:
  "builtForest a V ds \<Longrightarrow> V \<subseteq> insert R G \<Longrightarrow> R \<in> V \<Longrightarrow>
     \<forall>d \<in> visitedAfter ds G - G. dependentsOf a d - {R} \<subseteq> visitedAfter ds G"
proof (induction ds G arbitrary: V rule: visitedAfter.induct)
  case (1 G)
  then show ?case by simp
next
  case (2 d rd ds rest G)
  have bd: "d \<notin> V" "fst ` set ds = dependentsOf a d - insert d V"
    "builtForest a (insert d V) ds" "builtForest a V rest"
    using "2.prems"(1) by auto
  show ?case
  proof (cases "d \<in> G")
    case True
    then show ?thesis using "2.IH"(1) [OF True bd(4) "2.prems"(2,3)] by simp
  next
    case False
    let ?G1 = "insert d G" and ?G2 = "visitedAfter ds (insert d G)"
    let ?G3 = "visitedAfter rest (visitedAfter ds (insert d G))"
    have m: "?G1 \<subseteq> ?G2" "?G2 \<subseteq> ?G3" by (rule visitedAfter_mono)+
    have ih2: "\<forall>e \<in> ?G2 - ?G1. dependentsOf a e - {R} \<subseteq> ?G2"
      by (rule "2.IH"(2) [OF False bd(3)]) (use "2.prems"(2,3) in auto)
    have ih3: "\<forall>e \<in> ?G3 - ?G2. dependentsOf a e - {R} \<subseteq> ?G3"
      by (rule "2.IH"(3) [OF False bd(4)]) (use "2.prems"(2,3) m in auto)
    have roots: "fst ` set ds \<subseteq> ?G2" by (rule visitedAfter_roots)
    have "dependentsOf a d \<subseteq> fst ` set ds \<union> insert d V" using bd(2) by auto
    moreover have "fst ` set ds \<subseteq> ?G3" using roots m by blast
    moreover have "insert d V \<subseteq> insert R ?G3" using "2.prems"(2) m by blast
    ultimately have own: "dependentsOf a d - {R} \<subseteq> ?G3"
      by blast
    have "\<forall>e \<in> ?G3 - G. dependentsOf a e - {R} \<subseteq> ?G3"
    proof
      fix e assume e: "e \<in> ?G3 - G"
      consider "e = d" | "e \<in> ?G2 - ?G1" | "e \<in> ?G3 - ?G2" using e by auto
      then show "dependentsOf a e - {R} \<subseteq> ?G3"
      proof cases
        case 1
        then show ?thesis using own by simp
      next
        case 2
        then show ?thesis using ih2 m(2) by blast
      next
        case 3
        then show ?thesis using ih3 by blast
      qed
    qed
    then show ?thesis using False by simp
  qed
qed

lemma treeFiles_closed:
  "builtForest a V ds \<Longrightarrow> R \<in> V \<Longrightarrow> fst ` set ds \<subseteq> X \<Longrightarrow>
   \<forall>d \<in> X. dependentsOf a d - {R} \<subseteq> X \<Longrightarrow> treeFiles ds \<subseteq> X"
proof (induction ds arbitrary: V rule: treeFiles.induct)
  case 1
  then show ?case by simp
next
  case (2 d rd ds rest)
  have bd: "fst ` set ds = dependentsOf a d - insert d V"
    "builtForest a (insert d V) ds" "builtForest a V rest"
    using "2.prems"(1) by auto
  have d: "d \<in> X" using "2.prems"(3) by simp
  then have "dependentsOf a d - {R} \<subseteq> X" using "2.prems"(4) by blast
  then have "fst ` set ds \<subseteq> X" using bd(1) "2.prems"(2) by auto
  then have sub: "treeFiles ds \<subseteq> X"
    using "2.IH"(1) [OF bd(2) _ _ "2.prems"(4)] "2.prems"(2) by simp
  have "treeFiles rest \<subseteq> X"
    using "2.IH"(2) [OF bd(3) "2.prems"(2) _ "2.prems"(4)] "2.prems"(3) by simp
  then show ?case using d sub by simp
qed

lemma visitedAfter_all:
  assumes "builtForest a {R} ds"
  shows "visitedAfter ds {} = treeFiles ds"
proof
  show "visitedAfter ds {} \<subseteq> treeFiles ds"
    using visitedAfter_upper [of ds "{}"] by simp
  have "\<forall>d \<in> visitedAfter ds {} - {}. dependentsOf a d - {R} \<subseteq> visitedAfter ds {}"
    by (rule visitedAfter_closed [OF assms]) simp_all
  then show "treeFiles ds \<subseteq> visitedAfter ds {}"
    by (intro treeFiles_closed [OF assms _ visitedAfter_roots]) simp_all
qed

lemma nonRouterFiles_built:
  "builtForest a V ds \<Longrightarrow>
     nonRouterFiles ds
       = {d \<in> treeFiles ds. \<exists>c. map_of (fileContents a) d = Some c \<and> \<not> isRouterDependant c}"
proof (induction ds arbitrary: V rule: nonRouterFiles.induct)
  case 1
  then show ?case by simp
next
  case (2 d rd ds rest)
  obtain content where c: "map_of (fileContents a) d = Some content" "rd = isRouterDependant content"
    using "2.prems" by auto
  have "nonRouterFiles ds
      = {d \<in> treeFiles ds. \<exists>c. map_of (fileContents a) d = Some c \<and> \<not> isRouterDependant c}"
    by (rule "2.IH"(1) [of "insert d V"]) (use "2.prems" in simp)
  moreover have "nonRouterFiles rest
      = {d \<in> treeFiles rest. \<exists>c. map_of (fileContents a) d = Some c \<and> \<not> isRouterDependant c}"
    by (rule "2.IH"(2) [of V]) (use "2.prems" in simp)
  ultimately show ?case using c by auto
qed

lemma set_ownHash_built:
  "map_of contents d = Some content \<Longrightarrow>
     set (ownHash sha contents d (isRouterDependant content))
       = {(d, hexPairs (sha c)) |c. map_of contents d = Some c \<and> \<not> isRouterDependant c \<and> c \<noteq> []}"
  by (auto simp: ownHash_def)

lemma hashesAfter_built:
  "builtForest a V ds \<Longrightarrow>
     set (hashesAfter sha (fileContents a) ds G)
       = {(d, hexPairs (sha c)) |d c. d \<in> visitedAfter ds G - G
            \<and> map_of (fileContents a) d = Some c \<and> \<not> isRouterDependant c \<and> c \<noteq> []}"
proof (induction sha "fileContents a" ds G arbitrary: V rule: hashesAfter.induct)
  case (1 sha G)
  then show ?case by simp
next
  case (2 sha d rd ds rest G)
  define H where "H A = {(d, hexPairs (sha c)) |d c. d \<in> A
      \<and> map_of (fileContents a) d = Some c \<and> \<not> isRouterDependant c \<and> c \<noteq> []}" for A
  obtain content where c: "map_of (fileContents a) d = Some content" "rd = isRouterDependant content"
    using "2.prems" by auto
  have bd: "builtForest a (insert d V) ds" "builtForest a V rest"
    using "2.prems" by auto
  show ?case
  proof (cases "d \<in> G")
    case True
    then show ?thesis using "2.hyps"(1) [OF True bd(2)] by simp
  next
    case False
    let ?G1 = "insert d G" and ?G2 = "visitedAfter ds (insert d G)"
    let ?G3 = "visitedAfter rest (visitedAfter ds (insert d G))"
    have m: "?G1 \<subseteq> ?G2" "?G2 \<subseteq> ?G3" by (rule visitedAfter_mono)+
    have own: "set (ownHash sha (fileContents a) d rd) = H {d}"
      unfolding H_def using set_ownHash_built [OF c(1), of sha] c(2) by auto
    have sub: "set (hashesAfter sha (fileContents a) ds ?G1) = H (?G2 - ?G1)"
      unfolding H_def by (rule "2.hyps"(2) [OF False bd(1)])
    have rest: "set (hashesAfter sha (fileContents a) rest ?G2) = H (?G3 - ?G2)"
      unfolding H_def by (rule "2.hyps"(3) [OF False bd(2)])
    have split: "?G3 - G = {d} \<union> (?G2 - ?G1) \<union> (?G3 - ?G2)"
      using m False by auto
    have HU: "H (A \<union> B) = H A \<union> H B" for A B
      unfolding H_def by blast
    have "set (hashesAfter sha (fileContents a) ((d, Node rd ds) # rest) G)
        = set (ownHash sha (fileContents a) d rd)
          \<union> set (hashesAfter sha (fileContents a) ds ?G1)
          \<union> set (hashesAfter sha (fileContents a) rest ?G2)"
      using False by (simp add: Un_assoc)
    also have "\<dots> = H (?G3 - G)"
      unfolding own sub rest split HU ..
    also have "?G3 = visitedAfter ((d, Node rd ds) # rest) G"
      using False by simp
    finally show ?thesis unfolding H_def .
  qed
qed

section \<open>Key reconstruction\<close>

lemma liveFold_as_xorFold:
  assumes sha: "\<forall>c. length (sha c) = 64"
    and live: "\<forall>d \<in> set files. \<exists>c. map_of contents d = Some c
        \<and> map_of live (fileNameOf d) = Some (sha c)"
  shows "liveFold live acc files
    = xorFold acc (map (\<lambda>d. hexPairs (sha (the (map_of contents d)))) files)"
  using live
proof (induction files arbitrary: acc)
  case Nil
  then show ?case by simp
next
  case (Cons d files)
  obtain c where c: "map_of contents d = Some c" "map_of live (fileNameOf d) = Some (sha c)"
    using Cons.prems by auto
  have ne: "sha c \<noteq> []" using sha [rule_format, of c] by auto
  have ih: "liveFold live acc' files
      = xorFold acc' (map (\<lambda>d. hexPairs (sha (the (map_of contents d)))) files)" for acc'
    by (rule Cons.IH) (use Cons.prems in simp)
  show ?case
    by (simp add: c ne hash_parses [OF sha] ih split: sum.splits)
qed

lemma mset_by_key:
  assumes "distinct (map fst kvs)" "distinct ks" "fst ` set kvs = set ks"
    and "\<forall>(k, v) \<in> set kvs. v = h k"
  shows "mset (map snd kvs) = mset (map h ks)"
proof -
  have eq1: "map snd kvs = map h (map fst kvs)"
    using assms(4) by (induction kvs) auto
  have "set (map fst kvs) = set ks"
    using assms(3) by simp
  then have "mset (map fst kvs) = mset ks"
    using assms(1,2) set_eq_iff_mset_eq_distinct [of "map fst kvs" ks] by blast
  then have eq2: "mset (map h (map fst kvs)) = mset (map h ks)"
    by (metis mset_map)
  show ?thesis unfolding eq1 by (rule eq2)
qed

lemma xorBuffers_same_length:
  "length x = length m \<Longrightarrow> \<exists>k. xorBuffers x m = Inr k \<and> length k = length m"
  by (simp add: xorBuffers_def)

text \<open>
  C1 (amended). For a router-dependent file whose node was built by \<open>processFile\<close> and is
  the first root of the embedded tree that matches the callee, with at least one file in
  its branch, every branch file having non-empty content at build time and the live table
  holding, under its bare name, the SHA-256 hex digest of that content: the key that
  \<open>computeKeyForRouterFile\<close> records, read back from hex, is the key that
  \<open>routerForwardCall\<close> reconstructs from the published mask.
\<close>

theorem key_reconstruction_equivalence:
  assumes built: "processFile n a routerFile {} = Some (Some routerNode)"
    and root: "find (\<lambda>(f, nd). endsWith f (fileKeyOf callee)) (DEPENDENCY_TREE pg)
                 = Some (routerFile, routerNode)"
    and rd: "routerDependant routerNode"
    and sha: "\<forall>c. length (sha256hex c) = 64"
    and mask: "length randomMask = 32"
    and mapping: "map_of (IVS_MAPPING pg) (fileKeyOf callee) = Some mappingForFile"
    and published: "map_of mappingForFile ''mask'' = Some (uint8ArrayToHexString randomMask)"
    and branch: "nonRouterFiles (dependencies routerNode) \<noteq> {}"
    and live: "\<forall>d \<in> nonRouterFiles (dependencies routerNode).
                 \<exists>c. map_of (fileContents a) d = Some c \<and> c \<noteq> []
                   \<and> map_of (globalHashes pg) (fileNameOf d) = Some (sha256hex c)"
  shows "\<exists>details key.
           computeKeyForRouterFile sha256hex (fileContents a) routerNode randomMask = Inr details
           \<and> maskHex details = uint8ArrayToHexString randomMask
           \<and> hexStringToUint8Array (keyHex details) = Inr key
           \<and> reconstructKey pg callee = Inr (FinalKey key)"
proof -
  obtain rdn ds where node: "routerNode = Node rdn ds" by (cases routerNode)
  define hv where "hv d = hexPairs (sha256hex (the (map_of (fileContents a) d)))" for d
  define hashes where "hashes = hashesAfter sha256hex (fileContents a) ds {}"
  define bf where "bf = fst (collectDeps ds ([], {}))"
  have "builtForest a {} [(routerFile, routerNode)]"
    using processFile_built_aux(1) [of n a routerFile "{}"] built by simp
  then have forest: "builtForest a {routerFile} ds"
    by (simp add: node)
  have nr: "nonRouterFiles ds
      = {d \<in> treeFiles ds. \<exists>c. map_of (fileContents a) d = Some c \<and> \<not> isRouterDependant c}"
    using forest by (rule nonRouterFiles_built)
  have live': "\<forall>d \<in> nonRouterFiles ds.
      \<exists>c. map_of (fileContents a) d = Some c \<and> c \<noteq> []
        \<and> map_of (globalHashes pg) (fileNameOf d) = Some (sha256hex c)"
    using live by (simp add: node)
  \<comment> \<open>build time\<close>
  have collected: "collectHashesFromDependencies sha256hex (fileContents a) ds {}
      = Inr (hashes, visitedAfter ds {})"
    using collectHashesLoop_eq [OF sha, of "[]" "{}" "fileContents a" ds]
    by (simp add: collectHashesFromDependencies_def hashes_def)
  have set_hashes: "set hashes = {(d, hexPairs (sha256hex c)) |d c. d \<in> treeFiles ds
      \<and> map_of (fileContents a) d = Some c \<and> \<not> isRouterDependant c \<and> c \<noteq> []}"
    using hashesAfter_built [OF forest, of sha256hex "{}"] visitedAfter_all [OF forest]
    by (simp add: hashes_def)
  have keys: "fst ` set hashes = nonRouterFiles ds"
  proof
    show "fst ` set hashes \<subseteq> nonRouterFiles ds"
      unfolding set_hashes nr by auto
    show "nonRouterFiles ds \<subseteq> fst ` set hashes"
    proof
      fix d assume d: "d \<in> nonRouterFiles ds"
      then obtain c where c: "map_of (fileContents a) d = Some c" "c \<noteq> []"
        using live' by blast
      have "d \<in> treeFiles ds" "\<not> isRouterDependant c"
        using d c(1) unfolding nr by auto
      then have "(d, hexPairs (sha256hex c)) \<in> set hashes"
        unfolding set_hashes using c by blast
      then show "d \<in> fst ` set hashes" by force
    qed
  qed
  have vals: "\<forall>(k, v) \<in> set hashes. v = hv k"
    unfolding set_hashes hv_def by auto
  \<comment> \<open>run time\<close>
  have bf: "set bf = nonRouterFiles ds" "distinct bf"
    using collectDeps_sets [of "([], {})" ds] by (simp_all add: bf_def)
  have bf_ne: "bf \<noteq> []" using bf(1) branch by (auto simp: node)
  have branchFiles: "collectBranch (DEPENDENCY_TREE pg) (fileKeyOf callee) = Inr bf"
    using root rd by (simp add: collectBranch_def bf_def node)
  have "\<forall>d \<in> set bf. \<exists>c. map_of (fileContents a) d = Some c
      \<and> map_of (globalHashes pg) (fileNameOf d) = Some (sha256hex c)"
    using live' bf(1) by blast
  then have fold_live: "liveFold (globalHashes pg) (newUint8Array 32) bf
      = xorFold (newUint8Array 32) (map hv bf)"
    unfolding hv_def by (rule liveFold_as_xorFold [OF sha])
  \<comment> \<open>the two folds\<close>
  have ms: "mset (map snd hashes) = mset (map hv bf)"
    by (rule mset_by_key) (use hashesAfter_distinct keys bf vals in \<open>auto simp: hashes_def\<close>)
  have len: "\<forall>h \<in> set (map hv bf). length h = length (newUint8Array 32)"
    using sha by (auto simp: hv_def length_hexPairs newUint8Array_def)
  then have len': "\<forall>h \<in> set (map snd hashes). length h = length (newUint8Array 32)"
    using mset_eq_setD [OF ms] by simp
  define X where "X = fold xorBytes (map hv bf) (newUint8Array 32)"
  have run_fold: "xorFold (newUint8Array 32) (map hv bf) = Inr X"
    unfolding X_def using len by (rule xorFold_fold)
  have build_fold: "xorFold (newUint8Array 32) (map snd hashes) = Inr X"
    unfolding X_def using xorFold_fold [OF len'] fold_xorBytes_mset [OF ms] by simp
  have "length X = 32"
    unfolding X_def using length_fold_xorBytes [OF len] by (simp add: newUint8Array_def)
  then obtain K where K: "xorBuffers X randomMask = Inr K"
    using xorBuffers_same_length [of X randomMask] mask by auto
  \<comment> \<open>both sides\<close>
  have build: "computeKeyForRouterFile sha256hex (fileContents a) routerNode randomMask
      = Inr \<lparr>xorOfHashes = uint8ArrayToHexString X,
             maskHex = uint8ArrayToHexString randomMask,
             keyHex = uint8ArrayToHexString K\<rparr>"
    by (simp add: computeKeyForRouterFile_def node collected build_fold K)
  have mask_ne: "uint8ArrayToHexString randomMask \<noteq> []"
    using length_uint8ArrayToHexString [of randomMask] mask by auto
  have run: "reconstructKey pg callee = Inr (FinalKey K)"
    using mask_ne
    by (simp add: reconstructKey_def mapping published branchFiles bf_ne fold_live run_fold
        truthyArray_def hexString_roundtrip K)
  show ?thesis
    using build run hexString_roundtrip [of K] by auto
qed

theorem key_reconstruction_equivalence_witness:
  "processFile 3 cycleProject ''/srv/site/a.js'' {}
     = Some (Some (Node True [(''/srv/site/b.js'', Node False [])]))
   \<and> find (\<lambda>(f, nd). endsWith f (fileKeyOf ''a'')) (DEPENDENCY_TREE cyclePage)
     = Some (''/srv/site/a.js'', Node True [(''/srv/site/b.js'', Node False [])])
   \<and> nonRouterFiles (dependencies (Node True [(''/srv/site/b.js'', Node False [])]))
     = {''/srv/site/b.js''}
   \<and> map_of (fileContents cycleProject) ''/srv/site/b.js'' = Some cycleContentB
   \<and> cycleContentB \<noteq> []
   \<and> map_of (globalHashes cyclePage) (fileNameOf ''/srv/site/b.js'')
     = Some (cycleDigest cycleContentB)
   \<and> (\<exists>details key.
         computeKeyForRouterFile cycleDigest (fileContents cycleProject)
           (Node True [(''/srv/site/b.js'', Node False [])]) cycleMask = Inr details
         \<and> maskHex details = uint8ArrayToHexString cycleMask
         \<and> hexStringToUint8Array (keyHex details) = Inr key
         \<and> reconstructKey cyclePage ''a'' = Inr (FinalKey key))"
proof -
  let ?N = "Node True [(''/srv/site/b.js'', Node False [])]"
  have h1: "processFile 3 cycleProject ''/srv/site/a.js'' {} = Some (Some ?N)"
    by (rule cycle_trees)
  have h2: "find (\<lambda>(f, nd). endsWith f (fileKeyOf ''a'')) (DEPENDENCY_TREE cyclePage)
      = Some (''/srv/site/a.js'', ?N)"
    by (simp add: cyclePage_def noBrowser_def fileKeyOf_def endsWith_def)
  have h3: "routerDependant ?N" by simp
  have h4: "\<forall>c. length (cycleDigest c) = 64" by (simp add: cycleDigest_def)
  have h5: "length cycleMask = 32" by (simp add: cycleMask_def)
  have h6: "map_of (IVS_MAPPING cyclePage) (fileKeyOf ''a'')
      = Some [(''mask'', uint8ArrayToHexString cycleMask)]"
    by (simp add: cyclePage_def noBrowser_def fileKeyOf_def endsWith_def)
  have h7: "map_of [(''mask'', uint8ArrayToHexString cycleMask)] ''mask''
      = Some (uint8ArrayToHexString cycleMask)"
    by simp
  have nr: "nonRouterFiles (dependencies ?N) = {''/srv/site/b.js''}" by simp
  have h8: "nonRouterFiles (dependencies ?N) \<noteq> {}" by simp
  have c: "map_of (fileContents cycleProject) ''/srv/site/b.js'' = Some cycleContentB"
    by (simp add: cycleProject_def)
  have ne: "cycleContentB \<noteq> []" by (simp add: cycleContentB_def)
  have g: "map_of (globalHashes cyclePage) (fileNameOf ''/srv/site/b.js'')
      = Some (cycleDigest cycleContentB)"
    by (simp add: cyclePage_def noBrowser_def fileNameOf_def isSeparator_def)
  have h9: "\<forall>d \<in> nonRouterFiles (dependencies ?N).
      \<exists>c. map_of (fileContents cycleProject) d = Some c \<and> c \<noteq> []
        \<and> map_of (globalHashes cyclePage) (fileNameOf d) = Some (cycleDigest c)"
    unfolding nr using c ne g by simp
  show ?thesis
    using key_reconstruction_equivalence [OF h1 h2 h3 h4 h5 h6 h7 h8 h9] h1 h2 nr c ne g
    by blast
qed

text \<open>
  C1 (as stated) fails at three inputs, each with the mask of 32 zero bytes.
  (1) Two router-dependent files that call each other: the build records the mask as the
  key, and the run time finds no branch file, logs and reconstructs no key.
  (2) A dependency that is an empty file: the build takes its empty content as missing
  and hashes nothing, the run time folds the digest that the live table holds for it.
  (3) A tree in which \<open>p.js\<close> occurs twice with different dependencies: the build skips
  the second occurrence and never reaches \<open>q.js\<close>, the run time descends into it and
  folds the hash of \<open>q.js\<close> too.
\<close>

theorem key_reconstruction_counterexample:
  "computeKeyForRouterFile unevenDigest
       [(''/srv/site/a.js'', ''a''), (''/srv/site/b.js'', ''b'')] routersOnlyNode zeroMask
     = Inr \<lparr>xorOfHashes = replicate 64 CHR ''0'', maskHex = replicate 64 CHR ''0'',
            keyHex = replicate 64 CHR ''0''\<rparr>
   \<and> reconstructKey routersOnlyPage ''a'' = Inr (Returned [ErrNoBranch ''a.js''])
   \<and> computeKeyForRouterFile unevenDigest
       [(''/srv/site/a.js'', ''a''), (''/srv/site/empty.js'', [])] emptyDepNode zeroMask
     = Inr \<lparr>xorOfHashes = replicate 64 CHR ''0'', maskHex = replicate 64 CHR ''0'',
            keyHex = replicate 64 CHR ''0''\<rparr>
   \<and> reconstructKey emptyDepPage ''a'' = Inr (FinalKey (hexPairs emptyDigest))
   \<and> uint8ArrayToHexString (hexPairs emptyDigest) = emptyDigest
   \<and> emptyDigest \<noteq> replicate 64 CHR ''0''
   \<and> computeKeyForRouterFile unevenDigest
       [(''/srv/site/a.js'', ''a''), (''/srv/site/p.js'', ''p''), (''/srv/site/q.js'', ''q''),
        (''/srv/site/x.js'', ''x'')] unevenNode zeroMask
     = Inr \<lparr>xorOfHashes = replicate 64 CHR ''1'', maskHex = replicate 64 CHR ''0'',
            keyHex = replicate 64 CHR ''1''\<rparr>
   \<and> hexStringToUint8Array (replicate 64 CHR ''1'') = Inr (replicate 32 0x11)
   \<and> reconstructKey unevenPage ''a'' = Inr (FinalKey (replicate 32 0x33))"
  by code_simp

end
